theory Spec2Isabelle
  imports Complex_Main "HOL-Library.Signed_Division"
begin

section \<open>CubeASCII: a shallow embedding of \<^verbatim>\<open>cubeascii.c\<close>\<close>

text \<open>
  The program is a terminal ray caster: a fixed character map, a player (position,
  direction vector, camera-plane vector), one ray per screen column traced through the
  map by a DDA loop, a wall slice per column, and keyboard movement with collision.

  Conventions of the embedding.
  \<^item> A C \<^verbatim>\<open>float\<close> or \<^verbatim>\<open>double\<close> is a \<^typ>\<open>real\<close>: arithmetic is exact, rounding,
    infinities and NaN are not modelled. Where the C value would not be finite (a
    division by zero) the model says so explicitly. The one operation that is rounded
    is the quotient \<^verbatim>\<open>SCREEN_HEIGHT / ray->perpWallDist\<close>, which the program casts to
    \<^verbatim>\<open>int\<close> at once, so that its rounding decides the integer.
  \<^item> A C \<^verbatim>\<open>int\<close> is an \<^typ>\<open>int\<close>; the places where the C value could leave the 32-bit
    range (a conversion from \<^verbatim>\<open>float\<close>, a negation) are guarded and yield an error.
  \<^item> Undefined behaviour of the C program is an error value \<open>Inl e\<close> of the result type
    \<open>error + 'a\<close>: an array read out of bounds, a \<^verbatim>\<open>float\<close> converted to \<^verbatim>\<open>int\<close> out of
    range, a signed overflow.
  \<^item> The global \<^verbatim>\<open>map\<close> is a parameter \<open>g\<close> of every function that reads it; the
    program's own map is the constant \<open>map_c\<close>.
\<close>

subsection \<open>Configuration\<close>

definition MAP_WIDTH :: int where "MAP_WIDTH = 16"
definition MAP_HEIGHT :: int where "MAP_HEIGHT = 16"
definition SCREEN_WIDTH :: int where "SCREEN_WIDTH = 90"
definition SCREEN_HEIGHT :: int where "SCREEN_HEIGHT = 50"

type_synonym grid = "string list"

text \<open>The array \<^verbatim>\<open>char *map[]\<close>, row by row.\<close>

definition map_c :: grid where
  "map_c =
    [''1111111111111111'',
     ''1100000000000001'',
     ''1101010101010101'',
     ''1100000000000001'',
     ''1000000000001101'',
     ''1011110001111101'',
     ''1001100000111101'',
     ''1001000100100001'',
     ''1111000000100111'',
     ''1110111110001111'',
     ''1010001000001111'',
     ''1011100001111001'',
     ''1000011000000001'',
     ''1011001000000001'',
     ''100110000P000001'',
     ''1111111111111111'']"

datatype error = OutOfBounds | FloatToInt | SignedOverflow

text \<open>
  \<^verbatim>\<open>map[cy][cx]\<close>. The array has \<open>length g\<close> rows; a row is a C string, so the index
  \<open>length row\<close> is still inside the object and reads the terminating NUL. Anything else
  is a read out of bounds.
\<close>

definition map_at :: "grid \<Rightarrow> int \<Rightarrow> int \<Rightarrow> error + char" where
  "map_at g cy cx =
     (if 0 \<le> cy \<and> cy < int (length g) then
        (let row = g ! nat cy in
           if 0 \<le> cx \<and> cx < int (length row) then Inr (row ! nat cx)
           else if cx = int (length row) then Inr (CHR 0x00)
           else Inl OutOfBounds)
      else Inl OutOfBounds)"

text \<open>
  The cast \<^verbatim>\<open>(int)f\<close>: the fractional part is discarded (truncation toward zero); the
  behaviour is undefined when the integral part is not a 32-bit \<^verbatim>\<open>int\<close>.
\<close>

definition float_to_int :: "real \<Rightarrow> error + int" where
  "float_to_int f =
     (if - 2147483649 < f \<and> f < 2147483648
      then Inr (if 0 \<le> f then \<lfloor>f\<rfloor> else \<lceil>f\<rceil>)
      else Inl FloatToInt)"

text \<open>\<^verbatim>\<open>map[(int)fy][(int)fx]\<close>, as movement reads the map.\<close>

definition map_at_pos :: "grid \<Rightarrow> real \<Rightarrow> real \<Rightarrow> error + char" where
  "map_at_pos g fy fx =
     (case float_to_int fy of
        Inl e \<Rightarrow> Inl e
      | Inr cy \<Rightarrow>
          (case float_to_int fx of
             Inl e \<Rightarrow> Inl e
           | Inr cx \<Rightarrow> map_at g cy cx))"

subsection \<open>The player\<close>

record t_player =
  x :: real
  y :: real
  dirX :: real
  dirY :: real
  planeX :: real
  planeY :: real

definition moveSpeed :: real where "moveSpeed = 1 / 10"
definition rotSpeed :: real where "rotSpeed = 5 / 100"

text \<open>
  The two lines every translation branch of \<^verbatim>\<open>move_player\<close> ends with:
  \<^verbatim>\<open>if (map[(int)newY][(int)p->x] != '1') p->y = newY;\<close>
  \<^verbatim>\<open>if (map[(int)p->y][(int)newX] != '1') p->x = newX;\<close>
  The second test reads \<^verbatim>\<open>p->y\<close> after the first line may have changed it.
\<close>

definition commit_axes :: "grid \<Rightarrow> t_player \<Rightarrow> real \<Rightarrow> real \<Rightarrow> error + t_player" where
  "commit_axes g p newX newY =
     (case map_at_pos g newY (x p) of
        Inl e \<Rightarrow> Inl e
      | Inr c1 \<Rightarrow>
          (let p1 = (if c1 \<noteq> CHR ''1'' then p\<lparr>y := newY\<rparr> else p) in
             (case map_at_pos g (y p1) newX of
                Inl e \<Rightarrow> Inl e
              | Inr c2 \<Rightarrow> Inr (if c2 \<noteq> CHR ''1'' then p1\<lparr>x := newX\<rparr> else p1))))"

text \<open>
  The rotation both rotate_view branches apply, with \<open>a\<close> the angle: \<^verbatim>\<open>oldDirX\<close> and
  \<^verbatim>\<open>oldPlaneX\<close> keep the components that the first assignment of each pair overwrites.
\<close>

definition rotate_view :: "real \<Rightarrow> t_player \<Rightarrow> t_player" where
  "rotate_view a p =
     (let oldDirX = dirX p;
          p1 = p\<lparr>dirX := dirX p * cos a - dirY p * sin a\<rparr>;
          p2 = p1\<lparr>dirY := oldDirX * sin a + dirY p1 * cos a\<rparr>;
          oldPlaneX = planeX p2;
          p3 = p2\<lparr>planeX := planeX p2 * cos a - planeY p2 * sin a\<rparr>
      in p3\<lparr>planeY := oldPlaneX * sin a + planeY p3 * cos a\<rparr>)"

text \<open>
  \<^verbatim>\<open>move_player\<close>. The source is a sequence of six \<^verbatim>\<open>if (key == ...)\<close> statements on
  six different characters; \<^verbatim>\<open>key\<close> is never assigned, so at most one of them runs.
\<close>

definition move_player :: "grid \<Rightarrow> t_player \<Rightarrow> char \<Rightarrow> error + t_player" where
  "move_player g p key =
     (if key = CHR ''w'' then
        commit_axes g p (x p + dirX p * moveSpeed) (y p + dirY p * moveSpeed)
      else if key = CHR ''s'' then
        commit_axes g p (x p - dirX p * moveSpeed) (y p - dirY p * moveSpeed)
      else if key = CHR ''a'' then
        commit_axes g p (x p - planeX p * moveSpeed) (y p - planeY p * moveSpeed)
      else if key = CHR ''d'' then
        commit_axes g p (x p + planeX p * moveSpeed) (y p + planeY p * moveSpeed)
      else if key = CHR ''e'' then Inr (rotate_view rotSpeed p)
      else if key = CHR ''q'' then Inr (rotate_view (- rotSpeed) p)
      else Inr p)"

text \<open>A sequence of key presses, each handed to \<^verbatim>\<open>move_player\<close> as the main loop does.\<close>

fun move_keys :: "grid \<Rightarrow> t_player \<Rightarrow> char list \<Rightarrow> error + t_player" where
  "move_keys g p [] = Inr p"
| "move_keys g p (key # keys) =
     (case move_player g p key of
        Inl e \<Rightarrow> Inl e
      | Inr p' \<Rightarrow> move_keys g p' keys)"

subsection \<open>Rays\<close>

record t_ray =
  cameraX :: real
  rayDirX :: real
  rayDirY :: real
  mapX :: int
  mapY :: int
  deltaDistX :: real
  deltaDistY :: real
  sideDistX :: real
  sideDistY :: real
  stepX :: int
  stepY :: int
  hit :: int
  side :: int
  perpWallDist :: real

text \<open>
  \<^verbatim>\<open>init_ray\<close>. The ray is the caller's variable, overwritten field by field; the
  literal \<^verbatim>\<open>1e30\<close> stands for a ray that never crosses a gridline of that axis.
\<close>

definition init_ray :: "t_ray \<Rightarrow> int \<Rightarrow> t_player \<Rightarrow> error + t_ray" where
  "init_ray ray column player =
     (let cam = real_of_int (2 * column) / real_of_int SCREEN_WIDTH - 1;
          rdx = dirX player + planeX player * cam;
          rdy = dirY player + planeY player * cam
      in case float_to_int (x player) of
           Inl e \<Rightarrow> Inl e
         | Inr mx \<Rightarrow>
             (case float_to_int (y player) of
                Inl e \<Rightarrow> Inl e
              | Inr my \<Rightarrow>
                  Inr (ray\<lparr>cameraX := cam, rayDirX := rdx, rayDirY := rdy,
                           mapX := mx, mapY := my,
                           deltaDistX := (if rdx \<noteq> 0 then \<bar>1 / rdx\<bar> else 10 ^ 30),
                           deltaDistY := (if rdy \<noteq> 0 then \<bar>1 / rdy\<bar> else 10 ^ 30),
                           hit := 0\<rparr>)))"

definition compute_initial_steps :: "t_ray \<Rightarrow> t_player \<Rightarrow> t_ray" where
  "compute_initial_steps ray player =
     (let ray1 =
            (if rayDirX ray < 0
             then ray\<lparr>stepX := - 1,
                      sideDistX := (x player - real_of_int (mapX ray)) * deltaDistX ray\<rparr>
             else ray\<lparr>stepX := 1,
                      sideDistX := (real_of_int (mapX ray) + 1 - x player) * deltaDistX ray\<rparr>)
      in if rayDirY ray1 < 0
         then ray1\<lparr>stepY := - 1,
                   sideDistY := (y player - real_of_int (mapY ray1)) * deltaDistY ray1\<rparr>
         else ray1\<lparr>stepY := 1,
                   sideDistY := (real_of_int (mapY ray1) + 1 - y player) * deltaDistY ray1\<rparr>)"

text \<open>One pass through the body of the \<^verbatim>\<open>while (!ray->hit)\<close> loop of \<^verbatim>\<open>perform_dda\<close>.\<close>

definition dda_step :: "grid \<Rightarrow> t_ray \<Rightarrow> error + t_ray" where
  "dda_step g ray =
     (let ray1 =
            (if sideDistX ray < sideDistY ray
             then ray\<lparr>sideDistX := sideDistX ray + deltaDistX ray,
                      mapX := mapX ray + stepX ray, side := 0\<rparr>
             else ray\<lparr>sideDistY := sideDistY ray + deltaDistY ray,
                      mapY := mapY ray + stepY ray, side := 1\<rparr>)
      in case map_at g (mapY ray1) (mapX ray1) of
           Inl e \<Rightarrow> Inl e
         | Inr c \<Rightarrow> Inr (if c = CHR ''1'' then ray1\<lparr>hit := 1\<rparr> else ray1))"

text \<open>
  The loop itself. Nothing in \<^verbatim>\<open>perform_dda\<close> bounds the number of passes, so the model
  takes the number of passes it may make: \<open>None\<close> says the loop was still running after
  that many, \<open>Some (Inl e)\<close> that a pass read the map out of bounds.
\<close>

fun dda_loop :: "nat \<Rightarrow> grid \<Rightarrow> t_ray \<Rightarrow> (error + t_ray) option" where
  "dda_loop 0 g ray = (if hit ray \<noteq> 0 then Some (Inr ray) else None)"
| "dda_loop (Suc n) g ray =
     (if hit ray \<noteq> 0 then Some (Inr ray)
      else (case dda_step g ray of
              Inl e \<Rightarrow> Some (Inl e)
            | Inr ray' \<Rightarrow> dda_loop n g ray'))"

definition perform_dda :: "nat \<Rightarrow> grid \<Rightarrow> t_ray \<Rightarrow> (error + t_ray) option" where
  "perform_dda n g ray =
     (case dda_loop n g ray of
        None \<Rightarrow> None
      | Some (Inl e) \<Rightarrow> Some (Inl e)
      | Some (Inr ray') \<Rightarrow>
          Some (Inr (if side ray' = 0
                     then ray'\<lparr>perpWallDist := sideDistX ray' - deltaDistX ray'\<rparr>
                     else ray'\<lparr>perpWallDist := sideDistY ray' - deltaDistY ray'\<rparr>)))"

text \<open>The three calls \<^verbatim>\<open>render\<close> makes for a column before it projects the ray.\<close>

definition cast_ray :: "nat \<Rightarrow> grid \<Rightarrow> t_ray \<Rightarrow> int \<Rightarrow> t_player \<Rightarrow> (error + t_ray) option" where
  "cast_ray n g ray column player =
     (case init_ray ray column player of
        Inl e \<Rightarrow> Some (Inl e)
      | Inr ray1 \<Rightarrow> perform_dda n g (compute_initial_steps ray1 player))"

subsection \<open>Projection and shading\<close>

text \<open>
  The five background colours \<^verbatim>\<open>RED_1\<close> ... \<^verbatim>\<open>RED_5\<close>. Each macro is the escape sequence
  \<^verbatim>\<open>\033[48;2;R;G;Bm\<close>; \<open>shade_rgb\<close> gives the three numbers of each.
\<close>

datatype shade = RED_1 | RED_2 | RED_3 | RED_4 | RED_5

fun shade_rgb :: "shade \<Rightarrow> nat \<times> nat \<times> nat" where
  "shade_rgb RED_1 = (255, 50, 50)"
| "shade_rgb RED_2 = (200, 30, 30)"
| "shade_rgb RED_3 = (150, 20, 20)"
| "shade_rgb RED_4 = (100, 10, 10)"
| "shade_rgb RED_5 = (60, 5, 5)"

definition get_shade :: "real \<Rightarrow> shade" where
  "get_shade wdist =
     (if wdist < 15 / 10 then RED_1
      else if wdist < 3 then RED_2
      else if wdist < 5 then RED_3
      else if wdist < 7 then RED_4
      else RED_5)"

text \<open>
  The rounding of a \<^verbatim>\<open>float\<close> operation: to the nearest number with a significand of 24
  bits, ties to the even one (IEEE 754 binary32). \<open>expo q\<close> is the exponent of a positive
  \<open>q\<close>, the \<open>e\<close> with \<open>2^e \<le> q < 2^(e+1)\<close>, found by halving or doubling; below
  \<open>2^-126\<close> the spacing stays that of the subnormal numbers. The largest finite \<^verbatim>\<open>float\<close>
  is not modelled: a quotient beyond it is infinite in C and merely huge here, and both
  are outside the range of the cast that follows.
\<close>

function expo_up :: "real \<Rightarrow> int" where
  "expo_up q = (if 2 \<le> q then expo_up (q / 2) + 1 else 0)"
  by pat_completeness auto
termination
proof (relation "measure (\<lambda>q. nat \<lfloor>q\<rfloor>)")
  show "wf (measure (\<lambda>q::real. nat \<lfloor>q\<rfloor>))" by simp
next
  fix q :: real
  assume a: "2 \<le> q"
  have "q / 2 \<le> q - 1" using a by simp
  then have "\<lfloor>q / 2\<rfloor> \<le> \<lfloor>q - 1\<rfloor>" by (rule floor_mono)
  then have "\<lfloor>q / 2\<rfloor> < \<lfloor>q\<rfloor>" by simp
  moreover have "0 < \<lfloor>q\<rfloor>" using a by simp
  ultimately show "(q / 2, q) \<in> measure (\<lambda>q. nat \<lfloor>q\<rfloor>)" by simp
qed

function expo_down :: "real \<Rightarrow> int" where
  "expo_down q = (if 0 < q \<and> q < 1 then expo_down (q * 2) - 1 else 0)"
  by pat_completeness auto
termination
proof (relation "measure (\<lambda>q. nat \<lceil>1 / q\<rceil>)")
  show "wf (measure (\<lambda>q::real. nat \<lceil>1 / q\<rceil>))" by simp
next
  fix q :: real
  assume a: "0 < q \<and> q < 1"
  then have "1 < 1 / q" by simp
  then have c2: "2 \<le> \<lceil>1 / q\<rceil>" by linarith
  have "1 / (q * 2) = (1 / q) / 2" by simp
  also have "\<dots> \<le> real_of_int \<lceil>1 / q\<rceil> / 2" by (simp add: divide_right_mono)
  also have "\<dots> \<le> real_of_int (\<lceil>1 / q\<rceil> - 1)" using c2 by simp
  finally have "\<lceil>1 / (q * 2)\<rceil> \<le> \<lceil>1 / q\<rceil> - 1" by (simp only: ceiling_le_iff)
  then have "nat \<lceil>1 / (q * 2)\<rceil> < nat \<lceil>1 / q\<rceil>" using c2 by linarith
  then show "(q * 2, q) \<in> measure (\<lambda>q. nat \<lceil>1 / q\<rceil>)" by simp
qed

declare expo_up.simps [simp del] expo_down.simps [simp del]

definition expo :: "real \<Rightarrow> int" where
  "expo q = (if 1 \<le> q then expo_up q else expo_down q)"

definition pow2 :: "int \<Rightarrow> real" where
  "pow2 k = (if 0 \<le> k then 2 ^ nat k else 1 / 2 ^ nat (- k))"

definition round_even :: "real \<Rightarrow> int" where
  "round_even r =
     (let f = \<lfloor>r\<rfloor>; t = r - real_of_int f
      in if t < 1 / 2 then f
         else if 1 / 2 < t then f + 1
         else if even f then f else f + 1)"

definition binary32 :: "real \<Rightarrow> real" where
  "binary32 q =
     (let k = max (expo \<bar>q\<bar>) (- 126) - 23
      in real_of_int (round_even (q / pow2 k)) * pow2 k)"

text \<open>
  \<^verbatim>\<open>lineHeight = (int)(SCREEN_HEIGHT / ray->perpWallDist)\<close>: the quotient of two
  \<^verbatim>\<open>float\<close>s, rounded, then cast. For a distance of zero the quotient is not a finite
  number and its conversion is undefined.
\<close>

definition line_height :: "real \<Rightarrow> error + int" where
  "line_height wdist =
     (if wdist = 0 then Inl FloatToInt
      else float_to_int (binary32 (real_of_int SCREEN_HEIGHT / wdist)))"

text \<open>
  The rest of \<^verbatim>\<open>compute_wall_slice\<close> up to the stores: \<open>start\<close>, \<open>end\<close> and the colour.
  Integer division is C's, truncating; \<^verbatim>\<open>-lineHeight\<close> overflows for the least \<^verbatim>\<open>int\<close>.
\<close>

definition wall_slice :: "real \<Rightarrow> error + (int \<times> int \<times> shade)" where
  "wall_slice wdist =
     (case line_height wdist of
        Inl e \<Rightarrow> Inl e
      | Inr lineHeight \<Rightarrow>
          if lineHeight = - 2147483648 then Inl SignedOverflow
          else
            (let start0 = (- lineHeight) sdiv 2 + SCREEN_HEIGHT sdiv 2;
                 end0 = lineHeight sdiv 2 + SCREEN_HEIGHT sdiv 2;
                 start = (if start0 < 0 then 0 else start0);
                 end1 = (if end0 \<ge> SCREEN_HEIGHT then SCREEN_HEIGHT - 1 else end0)
             in Inr (start, end1, get_shade wdist)))"

text \<open>
  The per-column buffers \<^verbatim>\<open>draw_start\<close>, \<^verbatim>\<open>draw_end\<close>, \<^verbatim>\<open>wallColor\<close>, each of \<^verbatim>\<open>SCREEN_WIDTH\<close>
  entries; \<^verbatim>\<open>wallColor\<close> holds pointers, \<open>None\<close> is the null pointer.
\<close>

record buffers =
  draw_start :: "int list"
  draw_end :: "int list"
  wallColor :: "shade option list"

definition compute_wall_slice :: "t_ray \<Rightarrow> int \<Rightarrow> buffers \<Rightarrow> error + buffers" where
  "compute_wall_slice ray column b =
     (case wall_slice (perpWallDist ray) of
        Inl e \<Rightarrow> Inl e
      | Inr (start, end1, colour) \<Rightarrow>
          if 0 \<le> column \<and> column < SCREEN_WIDTH
          then Inr (b\<lparr>draw_start := (draw_start b)[nat column := start],
                      draw_end := (draw_end b)[nat column := end1],
                      wallColor := (wallColor b)[nat column := Some colour]\<rparr>)
          else Inl OutOfBounds)"

text \<open>The body of the first loop of \<^verbatim>\<open>render\<close>, for one column.\<close>

definition render_column ::
    "nat \<Rightarrow> grid \<Rightarrow> t_player \<Rightarrow> int \<Rightarrow> t_ray \<times> buffers \<Rightarrow> (error + t_ray \<times> buffers) option" where
  "render_column n g player column rb =
     (case cast_ray n g (fst rb) column player of
        None \<Rightarrow> None
      | Some (Inl e) \<Rightarrow> Some (Inl e)
      | Some (Inr ray') \<Rightarrow>
          (case compute_wall_slice ray' column (snd rb) of
             Inl e \<Rightarrow> Some (Inl e)
           | Inr b' \<Rightarrow> Some (Inr (ray', b'))))"

subsection \<open>Start-up: the spawn scan of \<^verbatim>\<open>main\<close>\<close>

text \<open>
  \<^verbatim>\<open>main\<close> declares the player without initialising it and walks over the
  \<^verbatim>\<open>MAP_HEIGHT\<close> by \<^verbatim>\<open>MAP_WIDTH\<close> cells; a cell holding \<^verbatim>\<open>'P'\<close> assigns all six fields.
  \<open>None\<close> is the player no assignment has reached yet.
\<close>

definition spawn_at :: "int \<Rightarrow> int \<Rightarrow> t_player" where
  "spawn_at cx cy =
     \<lparr>x = real_of_int cx + 5 / 10, y = real_of_int cy + 5 / 10,
      dirX = 0, dirY = - 1, planeX = 66 / 100, planeY = 0\<rparr>"

function scan_cols :: "grid \<Rightarrow> int \<Rightarrow> int \<Rightarrow> t_player option \<Rightarrow> error + t_player option" where
  "scan_cols g cy cx player =
     (if cx < MAP_WIDTH then
        (case map_at g cy cx of
           Inl e \<Rightarrow> Inl e
         | Inr c \<Rightarrow>
             scan_cols g cy (cx + 1) (if c = CHR ''P'' then Some (spawn_at cx cy) else player))
      else Inr player)"
  by pat_completeness auto
termination
  by (relation "measure (\<lambda>(g, cy, cx, player). nat (MAP_WIDTH - cx))") auto

function scan_rows :: "grid \<Rightarrow> int \<Rightarrow> t_player option \<Rightarrow> error + t_player option" where
  "scan_rows g cy player =
     (if cy < MAP_HEIGHT then
        (case scan_cols g cy 0 player of
           Inl e \<Rightarrow> Inl e
         | Inr player' \<Rightarrow> scan_rows g (cy + 1) player')
      else Inr player)"
  by pat_completeness auto
termination
  by (relation "measure (\<lambda>(g, cy, player). nat (MAP_HEIGHT - cy))") auto

declare scan_cols.simps [simp del] scan_rows.simps [simp del]

definition main_spawn :: "grid \<Rightarrow> error + t_player option" where
  "main_spawn g = scan_rows g 0 None"

subsection \<open>Notions the properties are stated in\<close>

text \<open>
  A grid with an enclosed border: rectangular, small enough for \<^verbatim>\<open>int\<close> indices, and
  every cell of the first and last row and of the first and last column is \<^verbatim>\<open>'1'\<close>.
\<close>

definition bordered :: "grid \<Rightarrow> bool" where
  "bordered g \<longleftrightarrow>
     g \<noteq> [] \<and> hd g \<noteq> [] \<and>
     length g < 2147483647 \<and> length (hd g) < 2147483647 \<and>
     (\<forall>row \<in> set g. length row = length (hd g) \<and> hd row = CHR ''1'' \<and> last row = CHR ''1'') \<and>
     (\<forall>c \<in> set (hd g). c = CHR ''1'') \<and>
     (\<forall>c \<in> set (last g). c = CHR ''1'')"

text \<open>The cell \<open>(cx, cy)\<close> lies in the grid and is not a wall.\<close>

definition open_cell :: "grid \<Rightarrow> int \<Rightarrow> int \<Rightarrow> bool" where
  "open_cell g cy cx \<longleftrightarrow>
     0 \<le> cy \<and> cy < int (length g) \<and> 0 \<le> cx \<and> cx < int (length (g ! nat cy)) \<and>
     g ! nat cy ! nat cx \<noteq> CHR ''1''"

text \<open>The player's position resolves, by the program's own cast, to an open cell.\<close>

definition in_open_cell :: "grid \<Rightarrow> t_player \<Rightarrow> bool" where
  "in_open_cell g p =
     (case float_to_int (y p) of
        Inl e \<Rightarrow> False
      | Inr cy \<Rightarrow>
          (case float_to_int (x p) of
             Inl e \<Rightarrow> False
           | Inr cx \<Rightarrow> open_cell g cy cx))"

text \<open>
  No translation moves the player a whole cell: the direction and the plane vector,
  scaled by \<open>moveSpeed\<close>, are shorter than 1. The program's own players satisfy it: the
  direction starts as a unit vector, the plane with length 0.66, and both are only ever
  rotated.
\<close>

definition short_steps :: "t_player \<Rightarrow> bool" where
  "short_steps p \<longleftrightarrow>
     (dirX p * moveSpeed)\<^sup>2 + (dirY p * moveSpeed)\<^sup>2 < 1 \<and>
     (planeX p * moveSpeed)\<^sup>2 + (planeY p * moveSpeed)\<^sup>2 < 1"

text \<open>The candidate position \<^verbatim>\<open>(newX, newY)\<close> that the branch of a translation key computes.\<close>

definition candidate :: "t_player \<Rightarrow> char \<Rightarrow> real \<times> real" where
  "candidate p key =
     (if key = CHR ''w'' then (x p + dirX p * moveSpeed, y p + dirY p * moveSpeed)
      else if key = CHR ''s'' then (x p - dirX p * moveSpeed, y p - dirY p * moveSpeed)
      else if key = CHR ''a'' then (x p - planeX p * moveSpeed, y p - planeY p * moveSpeed)
      else (x p + planeX p * moveSpeed, y p + planeY p * moveSpeed))"

definition translation_keys :: "char set" where
  "translation_keys = {CHR ''w'', CHR ''s'', CHR ''a'', CHR ''d''}"

definition rotation_keys :: "char set" where
  "rotation_keys = {CHR ''e'', CHR ''q''}"

text \<open>A player standing near the inner corner of the wall block at cells (12, 4), (13, 4).\<close>

definition p_corner :: t_player where
  "p_corner =
     \<lparr>x = 383 / 32, y = 127 / 32, dirX = 3 / 5, dirY = 4 / 5,
      planeX = - 66 / 125, planeY = 99 / 250\<rparr>"

text \<open>
  The cell holding the position \<open>(fx, fy)\<close> can be read and is not a wall: the test
  \<^verbatim>\<open>map[(int)fy][(int)fx] != '1'\<close> of \<^verbatim>\<open>move_player\<close>.
\<close>

definition walkable :: "grid \<Rightarrow> real \<Rightarrow> real \<Rightarrow> bool" where
  "walkable g fy fx =
     (case map_at_pos g fy fx of
        Inl e \<Rightarrow> False
      | Inr c \<Rightarrow> c \<noteq> CHR ''1'')"

text \<open>A player in the open cell (2, 3) whose direction vector has length 200.\<close>

definition p_far :: t_player where
  "p_far = \<lparr>x = 5 / 2, y = 7 / 2, dirX = 0, dirY = 200, planeX = - 132, planeY = 0\<rparr>"

text \<open>The brightness of a colour: the sum of its three channels.\<close>

definition intensity :: "shade \<Rightarrow> nat" where
  "intensity s = (case shade_rgb s of (r, gr, b) \<Rightarrow> r + gr + b)"

text \<open>
  The buffers as the program starts with them (static storage is zeroed), and a ray
  variable with every field zero.
\<close>

definition buffers0 :: buffers where
  "buffers0 =
     \<lparr>draw_start = replicate 90 0, draw_end = replicate 90 0, wallColor = replicate 90 None\<rparr>"

definition ray0 :: t_ray where
  "ray0 =
     \<lparr>cameraX = 0, rayDirX = 0, rayDirY = 0, mapX = 0, mapY = 0,
      deltaDistX = 0, deltaDistY = 0, sideDistX = 0, sideDistY = 0,
      stepX = 0, stepY = 0, hit = 0, side = 0, perpWallDist = 0\<rparr>"

text \<open>
  The room a ray has left before the border of the grid, in cells, along each axis and in
  the direction of its step.
\<close>

definition xroom :: "grid \<Rightarrow> t_ray \<Rightarrow> int" where
  "xroom g ray = (if stepX ray = 1 then int (length (hd g)) - 1 - mapX ray else mapX ray)"

definition yroom :: "grid \<Rightarrow> t_ray \<Rightarrow> int" where
  "yroom g ray = (if stepY ray = 1 then int (length g) - 1 - mapY ray else mapY ray)"

text \<open>The ray's current cell is inside the grid and not on its border.\<close>

definition strictly_inside :: "grid \<Rightarrow> t_ray \<Rightarrow> bool" where
  "strictly_inside g ray \<longleftrightarrow>
     0 < mapX ray \<and> mapX ray < int (length (hd g)) - 1 \<and>
     0 < mapY ray \<and> mapY ray < int (length g) - 1"

text \<open>
  From the cell \<open>(cx, cy)\<close>, going by \<open>(ax, ay)\<close> per step, the first wall is the cell
  reached after \<open>d\<close> steps; the cells before it can be read and are not walls.
\<close>

definition wall_ahead :: "grid \<Rightarrow> int \<Rightarrow> int \<Rightarrow> int \<Rightarrow> int \<Rightarrow> nat \<Rightarrow> bool" where
  "wall_ahead g cx cy ax ay d \<longleftrightarrow>
     0 < d \<and>
     (\<forall>j \<in> set [1..<d].
        case map_at g (cy + ay * int j) (cx + ax * int j) of
          Inl e \<Rightarrow> False
        | Inr c \<Rightarrow> c \<noteq> CHR ''1'') \<and>
     map_at g (cy + ay * int d) (cx + ax * int d) = Inr (CHR ''1'')"

text \<open>
  A player in the open cell (2, 3), exactly on the gridline \<open>x = 2\<close> that is the face of
  the wall cell (1, 3), looking west at it.
\<close>

definition p_wall :: t_player where
  "p_wall = \<lparr>x = 2, y = 7 / 2, dirX = - 1, dirY = 0, planeX = 0, planeY = - 66 / 100\<rparr>"

text \<open>
  The start player moved straight north onto the gridline \<open>y = 12\<close>: in the open cell
  (9, 12), on the face of the wall cell (9, 11).
\<close>

definition p_edge :: t_player where
  "p_edge = \<lparr>x = 19 / 2, y = 12, dirX = 0, dirY = - 1, planeX = 66 / 100, planeY = 0\<rparr>"

text \<open>The net number of rotation steps of a key sequence: \<open>e\<close> counts 1, \<open>q\<close> counts -1.\<close>

fun turns :: "char list \<Rightarrow> int" where
  "turns [] = 0"
| "turns (key # keys) =
     (if key = CHR ''e'' then 1 else if key = CHR ''q'' then - 1 else 0) + turns keys"

text \<open>
  The cells the scan of \<^verbatim>\<open>main\<close> visits, in the order it visits them (row by row, each row
  from left to right), and those among them that hold the spawn marker.
\<close>

definition scanned_cells :: "(int \<times> int) list" where
  "scanned_cells =
     concat (map (\<lambda>cy. map (\<lambda>cx. (cx, cy)) (map int [0..<nat MAP_WIDTH])) (map int [0..<nat MAP_HEIGHT]))"

definition spawn_cells :: "grid \<Rightarrow> (int \<times> int) list" where
  "spawn_cells g = filter (\<lambda>c. map_at g (snd c) (fst c) = Inr (CHR ''P'')) scanned_cells"

text \<open>A grid that has the \<^verbatim>\<open>MAP_HEIGHT\<close> rows of \<^verbatim>\<open>MAP_WIDTH\<close> cells the scan reads.\<close>

definition scannable :: "grid \<Rightarrow> bool" where
  "scannable g \<longleftrightarrow> nat MAP_HEIGHT \<le> length g \<and> (\<forall>row \<in> set g. nat MAP_WIDTH \<le> length row)"

text \<open>The program's map with the marker removed, and with a second marker in cell (2, 1).\<close>

definition map_no_spawn :: grid where
  "map_no_spawn = map_c[14 := ''1001100000000001'']"

definition map_two_spawns :: grid where
  "map_two_spawns = map_c[1 := ''11P0000000000001'']"

section \<open>Properties\<close>

subsection \<open>Grids with a border, and the cast to a cell\<close>

lemma bordered_nonempty: "bordered g \<Longrightarrow> g \<noteq> [] \<and> hd g \<noteq> []"
  unfolding bordered_def by blast

lemma bordered_sizes: "bordered g \<Longrightarrow> length g < 2147483647 \<and> length (hd g) < 2147483647"
  unfolding bordered_def by blast

lemma bordered_row:
  "bordered g \<Longrightarrow> row \<in> set g \<Longrightarrow>
     length row = length (hd g) \<and> hd row = CHR ''1'' \<and> last row = CHR ''1''"
  unfolding bordered_def by blast

lemma bordered_first: "bordered g \<Longrightarrow> c \<in> set (hd g) \<Longrightarrow> c = CHR ''1''"
  unfolding bordered_def by blast

lemma bordered_last: "bordered g \<Longrightarrow> c \<in> set (last g) \<Longrightarrow> c = CHR ''1''"
  unfolding bordered_def by blast

lemma bordered_row_length:
  assumes "bordered g" "0 \<le> cy" "cy < int (length g)"
  shows "length (g ! nat cy) = length (hd g)"
proof -
  have "g ! nat cy \<in> set g" using assms(2,3) by simp
  then show ?thesis using bordered_row[OF assms(1)] by blast
qed

lemma bordered_wall:
  assumes "bordered g" "0 \<le> cy" "cy < int (length g)" "0 \<le> cx" "cx < int (length (hd g))"
    and "cy = 0 \<or> cy = int (length g) - 1 \<or> cx = 0 \<or> cx = int (length (hd g)) - 1"
  shows "g ! nat cy ! nat cx = CHR ''1''"
proof -
  let ?row = "g ! nat cy"
  have gne: "g \<noteq> []" using bordered_nonempty[OF assms(1)] by blast
  have row: "?row \<in> set g" using assms(2,3) by simp
  have len: "length ?row = length (hd g)" using bordered_row[OF assms(1) row] by blast
  have ne: "?row \<noteq> []" using len bordered_nonempty[OF assms(1)] by auto
  have inrow: "?row ! nat cx \<in> set ?row" using assms(4,5) len by simp
  from assms(6) consider "cy = 0" | "cy = int (length g) - 1" | "cx = 0" | "cx = int (length (hd g)) - 1"
    by blast
  then show ?thesis
  proof cases
    case 1
    then have "?row = hd g" using gne by (simp add: hd_conv_nth)
    then show ?thesis using inrow bordered_first[OF assms(1)] by simp
  next
    case 2
    then have "nat cy = length g - 1" by simp
    then have "?row = last g" using gne by (simp add: last_conv_nth)
    then show ?thesis using inrow bordered_last[OF assms(1)] by simp
  next
    case 3
    then have "?row ! nat cx = hd ?row" using ne by (simp add: hd_conv_nth)
    then show ?thesis using bordered_row[OF assms(1) row] by simp
  next
    case 4
    then have "nat cx = length ?row - 1" using len by simp
    then have "?row ! nat cx = last ?row" using ne by (simp add: last_conv_nth)
    then show ?thesis using bordered_row[OF assms(1) row] by simp
  qed
qed

lemma open_cell_inside:
  assumes "bordered g" "open_cell g cy cx"
  shows "0 < cy \<and> cy < int (length g) - 1 \<and> 0 < cx \<and> cx < int (length (hd g)) - 1"
proof -
  have b: "0 \<le> cy" "cy < int (length g)" "0 \<le> cx" "cx < int (length (g ! nat cy))"
    and nw: "g ! nat cy ! nat cx \<noteq> CHR ''1''"
    using assms(2) unfolding open_cell_def by blast+
  have len: "length (g ! nat cy) = length (hd g)"
    using bordered_row_length[OF assms(1) b(1,2)] .
  have cxb: "cx < int (length (hd g))" using b(4) len by simp
  have "\<not> (cy = 0 \<or> cy = int (length g) - 1 \<or> cx = 0 \<or> cx = int (length (hd g)) - 1)"
    using bordered_wall[OF assms(1) b(1,2,3) cxb] nw by blast
  then show ?thesis using b(1,2,3) cxb by linarith
qed

lemma map_at_in_bounds:
  assumes "bordered g" "0 \<le> cy" "cy < int (length g)" "0 \<le> cx" "cx < int (length (hd g))"
  shows "map_at g cy cx = Inr (g ! nat cy ! nat cx)"
  using assms(2-5) bordered_row_length[OF assms(1,2,3)] by (simp add: map_at_def Let_def)

lemma open_cell_in_bounds:
  assumes "bordered g" "0 \<le> cy" "cy < int (length g)" "0 \<le> cx" "cx < int (length (hd g))"
    and "g ! nat cy ! nat cx \<noteq> CHR ''1''"
  shows "open_cell g cy cx"
  using assms(2-6) bordered_row_length[OF assms(1,2,3)] by (simp add: open_cell_def)

lemma float_to_int_pos:
  assumes "float_to_int f = Inr c" "0 < c"
  shows "0 \<le> f \<and> c = \<lfloor>f\<rfloor> \<and> f < 2147483648"
proof -
  have rng: "- 2147483649 < f \<and> f < 2147483648"
    using assms(1) unfolding float_to_int_def by (cases "- 2147483649 < f \<and> f < 2147483648") simp_all
  then have c: "c = (if 0 \<le> f then \<lfloor>f\<rfloor> else \<lceil>f\<rceil>)"
    using assms(1) unfolding float_to_int_def by simp
  have "0 \<le> f"
  proof (rule ccontr)
    assume "\<not> 0 \<le> f"
    then have "f \<le> 0" and "c = \<lceil>f\<rceil>" using c by simp_all
    then have "c \<le> 0" by (simp add: ceiling_le_iff)
    then show False using assms(2) by simp
  qed
  then show ?thesis using c rng by simp
qed

lemma float_to_int_near:
  assumes "float_to_int f = Inr c" "0 < c" "c < 2147483646" "\<bar>d\<bar> < 1"
  shows "\<exists>c'. float_to_int (f + d) = Inr c' \<and> c - 1 \<le> c' \<and> c' \<le> c + 1"
proof -
  have fl: "c = \<lfloor>f\<rfloor>" and pos: "0 \<le> f"
    using float_to_int_pos[OF assms(1,2)] by blast+
  have lo: "real_of_int c \<le> f" unfolding fl by (rule of_int_floor_le)
  have hi: "f < real_of_int c + 1" unfolding fl by linarith
  have c1: "1 \<le> real_of_int c" using assms(2) by simp
  have cb: "real_of_int c < 2147483646" using assms(3) by simp
  have nn: "0 \<le> f + d" using lo c1 assms(4) by linarith
  have lt: "f + d < 2147483648" using hi cb assms(4) by linarith
  have eq: "float_to_int (f + d) = Inr \<lfloor>f + d\<rfloor>"
    using nn lt by (simp add: float_to_int_def)
  have "real_of_int (c - 1) \<le> f + d" using lo assms(4) by simp
  then have a: "c - 1 \<le> \<lfloor>f + d\<rfloor>" by (simp only: le_floor_iff)
  have "f + d < real_of_int (c + 2)" using hi assms(4) by simp
  then have "\<lfloor>f + d\<rfloor> < c + 2" by (simp only: floor_less_iff)
  then have b: "\<lfloor>f + d\<rfloor> \<le> c + 1" by simp
  show ?thesis using eq a b by blast
qed

lemma commit_axes_cases:
  assumes "commit_axes g p newX newY = Inr p'"
  shows "\<exists>c1 c2. map_at_pos g newY (x p) = Inr c1 \<and>
           y p' = (if c1 \<noteq> CHR ''1'' then newY else y p) \<and>
           map_at_pos g (y p') newX = Inr c2 \<and>
           x p' = (if c2 \<noteq> CHR ''1'' then newX else x p) \<and>
           p' = p\<lparr>y := y p', x := x p'\<rparr>"
proof (cases "map_at_pos g newY (x p)")
  case (Inl e)
  then show ?thesis using assms by (simp add: commit_axes_def)
next
  case c1: (Inr c1)
  let ?p1 = "if c1 \<noteq> CHR ''1'' then p\<lparr>y := newY\<rparr> else p"
  have eq: "commit_axes g p newX newY =
      (case map_at_pos g (y ?p1) newX of Inl e \<Rightarrow> Inl e
       | Inr c2 \<Rightarrow> Inr (if c2 \<noteq> CHR ''1'' then ?p1\<lparr>x := newX\<rparr> else ?p1))"
    by (simp add: commit_axes_def c1 Let_def)
  show ?thesis
  proof (cases "map_at_pos g (y ?p1) newX")
    case (Inl e)
    then show ?thesis using assms eq by simp
  next
    case c2: (Inr c2)
    have p': "p' = (if c2 \<noteq> CHR ''1'' then ?p1\<lparr>x := newX\<rparr> else ?p1)"
      using assms eq c2 by simp
    have y': "y p' = y ?p1" by (simp add: p')
    have x1: "x ?p1 = x p" by simp
    have "y ?p1 = (if c1 \<noteq> CHR ''1'' then newY else y p)" by simp
    moreover have "x p' = (if c2 \<noteq> CHR ''1'' then newX else x p)" by (simp add: p' x1)
    moreover have "p' = p\<lparr>y := y p', x := x p'\<rparr>" by (simp add: p')
    ultimately show ?thesis using c1 c2 y' by simp
  qed
qed

lemma commit_axes_eval:
  assumes "map_at_pos g newY (x p) = Inr c1"
    and "map_at_pos g (if c1 \<noteq> CHR ''1'' then newY else y p) newX = Inr c2"
  shows "commit_axes g p newX newY =
           Inr (p\<lparr>y := (if c1 \<noteq> CHR ''1'' then newY else y p),
                  x := (if c2 \<noteq> CHR ''1'' then newX else x p)\<rparr>)"
proof -
  let ?p1 = "if c1 \<noteq> CHR ''1'' then p\<lparr>y := newY\<rparr> else p"
  have y1: "y ?p1 = (if c1 \<noteq> CHR ''1'' then newY else y p)" by simp
  have "commit_axes g p newX newY =
      (case map_at_pos g (y ?p1) newX of Inl e \<Rightarrow> Inl e
       | Inr c2 \<Rightarrow> Inr (if c2 \<noteq> CHR ''1'' then ?p1\<lparr>x := newX\<rparr> else ?p1))"
    by (simp add: commit_axes_def assms(1) Let_def)
  also have "\<dots> = Inr (if c2 \<noteq> CHR ''1'' then ?p1\<lparr>x := newX\<rparr> else ?p1)"
    using assms(2) by (simp only: y1 sum.case)
  also have "(if c2 \<noteq> CHR ''1'' then ?p1\<lparr>x := newX\<rparr> else ?p1) =
      p\<lparr>y := (if c1 \<noteq> CHR ''1'' then newY else y p),
        x := (if c2 \<noteq> CHR ''1'' then newX else x p)\<rparr>"
    by simp
  finally show ?thesis .
qed

subsection \<open>Movement and collision\<close>

lemma in_open_cell_position:
  "x p' = x p \<Longrightarrow> y p' = y p \<Longrightarrow> in_open_cell g p' = in_open_cell g p"
  unfolding in_open_cell_def by (erule ssubst, erule ssubst) (rule refl)

lemma short_steps_vectors:
  "dirX p' = dirX p \<Longrightarrow> dirY p' = dirY p \<Longrightarrow> planeX p' = planeX p \<Longrightarrow> planeY p' = planeY p \<Longrightarrow>
     short_steps p' = short_steps p"
  by (simp add: short_steps_def)

lemma square_sum_less_1:
  fixes a b :: real
  assumes "a\<^sup>2 + b\<^sup>2 < 1"
  shows "\<bar>a\<bar> < 1 \<and> \<bar>b\<bar> < 1"
proof -
  have "a\<^sup>2 < 1" using assms zero_le_power2[of b] by linarith
  moreover have "b\<^sup>2 < 1" using assms zero_le_power2[of a] by linarith
  ultimately show ?thesis by (simp add: abs_square_less_1)
qed

lemma move_player_translation:
  assumes "key \<in> translation_keys"
  shows "move_player g p key = commit_axes g p (fst (candidate p key)) (snd (candidate p key))"
proof -
  from assms consider "key = CHR ''w''" | "key = CHR ''s''" | "key = CHR ''a''" | "key = CHR ''d''"
    unfolding translation_keys_def by blast
  then show ?thesis
    by cases (simp_all add: move_player_def candidate_def)
qed

lemma candidate_near:
  assumes "key \<in> translation_keys" "short_steps p"
  shows "\<exists>dx dy. candidate p key = (x p + dx, y p + dy) \<and> \<bar>dx\<bar> < 1 \<and> \<bar>dy\<bar> < 1"
proof -
  have d: "\<bar>dirX p * moveSpeed\<bar> < 1" "\<bar>dirY p * moveSpeed\<bar> < 1"
    and pl: "\<bar>planeX p * moveSpeed\<bar> < 1" "\<bar>planeY p * moveSpeed\<bar> < 1"
    using assms(2) square_sum_less_1 unfolding short_steps_def by blast+
  from assms(1) consider "key = CHR ''w''" | "key = CHR ''s''" | "key = CHR ''a''" | "key = CHR ''d''"
    unfolding translation_keys_def by blast
  then show ?thesis
  proof cases
    case 1
    then have "candidate p key = (x p + dirX p * moveSpeed, y p + dirY p * moveSpeed)"
      by (simp add: candidate_def)
    then show ?thesis using d by blast
  next
    case 2
    then have "candidate p key = (x p + - (dirX p * moveSpeed), y p + - (dirY p * moveSpeed))"
      by (simp add: candidate_def)
    moreover have "\<bar>- (dirX p * moveSpeed)\<bar> < 1" "\<bar>- (dirY p * moveSpeed)\<bar> < 1"
      using d by simp_all
    ultimately show ?thesis by blast
  next
    case 3
    then have "candidate p key = (x p + - (planeX p * moveSpeed), y p + - (planeY p * moveSpeed))"
      by (simp add: candidate_def)
    moreover have "\<bar>- (planeX p * moveSpeed)\<bar> < 1" "\<bar>- (planeY p * moveSpeed)\<bar> < 1"
      using pl by simp_all
    ultimately show ?thesis by blast
  next
    case 4
    then have "candidate p key = (x p + planeX p * moveSpeed, y p + planeY p * moveSpeed)"
      by (simp add: candidate_def)
    then show ?thesis using pl by blast
  qed
qed

lemma commit_axes_stays_open:
  assumes bg: "bordered g" and op: "in_open_cell g p" and dx: "\<bar>dx\<bar> < 1" and dy: "\<bar>dy\<bar> < 1"
  shows "\<exists>p'. commit_axes g p (x p + dx) (y p + dy) = Inr p' \<and> in_open_cell g p'"
proof -
  obtain cy where cy: "float_to_int (y p) = Inr cy"
    using op unfolding in_open_cell_def by (cases "float_to_int (y p)") simp_all
  obtain cx where cx: "float_to_int (x p) = Inr cx"
    using op cy unfolding in_open_cell_def by (cases "float_to_int (x p)") simp_all
  have oc: "open_cell g cy cx" using op by (simp add: in_open_cell_def cy cx)
  have ins: "0 < cy" "cy < int (length g) - 1" "0 < cx" "cx < int (length (hd g)) - 1"
    using open_cell_inside[OF bg oc] by blast+
  have sz: "length g < 2147483647" "length (hd g) < 2147483647"
    using bordered_sizes[OF bg] by blast+
  have cyb: "cy < 2147483646" using ins(2) sz(1) by linarith
  have cxb: "cx < 2147483646" using ins(4) sz(2) by linarith
  obtain cy' where cy': "float_to_int (y p + dy) = Inr cy'" "cy - 1 \<le> cy'" "cy' \<le> cy + 1"
    using float_to_int_near[OF cy ins(1) cyb dy] by blast
  obtain cx' where cx': "float_to_int (x p + dx) = Inr cx'" "cx - 1 \<le> cx'" "cx' \<le> cx + 1"
    using float_to_int_near[OF cx ins(3) cxb dx] by blast
  have cy'b: "0 \<le> cy'" "cy' < int (length g)" using cy'(2,3) ins(1,2) by linarith+
  have cx'b: "0 \<le> cx'" "cx' < int (length (hd g))" using cx'(2,3) ins(3,4) by linarith+
  have cx0: "0 \<le> cx" "cx < int (length (hd g))" using ins(3,4) by linarith+
  have cy0: "0 \<le> cy" "cy < int (length g)" using ins(1,2) by linarith+
  let ?c1 = "g ! nat cy' ! nat cx"
  have r1: "map_at_pos g (y p + dy) (x p) = Inr ?c1"
    using map_at_in_bounds[OF bg cy'b cx0] by (simp add: map_at_pos_def cy'(1) cx)
  let ?y1 = "if ?c1 \<noteq> CHR ''1'' then y p + dy else y p"
  let ?cy1 = "if ?c1 \<noteq> CHR ''1'' then cy' else cy"
  have y1: "float_to_int ?y1 = Inr ?cy1" using cy cy'(1) by simp
  have cy1b: "0 \<le> ?cy1" "?cy1 < int (length g)" using cy'b cy0 by simp_all
  have oc1: "open_cell g ?cy1 cx"
  proof (cases "?c1 \<noteq> CHR ''1''")
    case True
    then show ?thesis using open_cell_in_bounds[OF bg cy'b cx0] by simp
  next
    case False
    then show ?thesis using oc by simp
  qed
  let ?c2 = "g ! nat ?cy1 ! nat cx'"
  have r2: "map_at_pos g ?y1 (x p + dx) = Inr ?c2"
    using map_at_in_bounds[OF bg cy1b cx'b] by (simp only: map_at_pos_def y1 cx'(1) sum.case)
  let ?x1 = "if ?c2 \<noteq> CHR ''1'' then x p + dx else x p"
  let ?p' = "p\<lparr>y := ?y1, x := ?x1\<rparr>"
  have res: "commit_axes g p (x p + dx) (y p + dy) = Inr ?p'"
    using commit_axes_eval[OF r1 r2] .
  have x1: "float_to_int ?x1 = Inr (if ?c2 \<noteq> CHR ''1'' then cx' else cx)"
    using cx cx'(1) by simp
  have oc2: "open_cell g ?cy1 (if ?c2 \<noteq> CHR ''1'' then cx' else cx)"
  proof (cases "?c2 \<noteq> CHR ''1''")
    case True
    then show ?thesis using open_cell_in_bounds[OF bg cy1b cx'b] by simp
  next
    case False
    then show ?thesis using oc1 by simp
  qed
  have yp: "y ?p' = ?y1" and xp: "x ?p' = ?x1" by simp_all
  have "in_open_cell g ?p'"
    unfolding in_open_cell_def yp xp by (simp only: y1 x1 sum.case oc2)
  then show ?thesis using res by blast
qed

lemma cos_times_cos: "cos t * cos t = 1 - sin t * sin (t::real)"
  using sin_cos_squared_add[of t] by (simp add: power2_eq_square)

lemma rotation_norm:
  fixes a b t :: real
  shows "(a * cos t - b * sin t)\<^sup>2 + (a * sin t + b * cos t)\<^sup>2 = a\<^sup>2 + b\<^sup>2"
  by (simp add: power2_eq_square algebra_simps cos_times_cos)

lemma rotation_dot:
  fixes a b c d t :: real
  shows "(a * cos t - b * sin t) * (c * cos t - d * sin t)
       + (a * sin t + b * cos t) * (c * sin t + d * cos t) = a * c + b * d"
  by (simp add: algebra_simps cos_times_cos)

lemma rotate_position: "x (rotate_view a p) = x p \<and> y (rotate_view a p) = y p"
  by (simp add: rotate_view_def Let_def)

lemma rotate_fields:
  "dirX (rotate_view a p) = dirX p * cos a - dirY p * sin a"
  "dirY (rotate_view a p) = dirX p * sin a + dirY p * cos a"
  "planeX (rotate_view a p) = planeX p * cos a - planeY p * sin a"
  "planeY (rotate_view a p) = planeX p * sin a + planeY p * cos a"
  by (simp_all add: rotate_view_def Let_def)

lemma rotate_short_steps: "short_steps (rotate_view a p) = short_steps p"
proof -
  have "(dirX (rotate_view a p) * moveSpeed)\<^sup>2 + (dirY (rotate_view a p) * moveSpeed)\<^sup>2
      = ((dirX p)\<^sup>2 + (dirY p)\<^sup>2) * moveSpeed\<^sup>2"
    unfolding rotate_fields power_mult_distrib distrib_right[symmetric] rotation_norm ..
  moreover have "(planeX (rotate_view a p) * moveSpeed)\<^sup>2 + (planeY (rotate_view a p) * moveSpeed)\<^sup>2
      = ((planeX p)\<^sup>2 + (planeY p)\<^sup>2) * moveSpeed\<^sup>2"
    unfolding rotate_fields power_mult_distrib distrib_right[symmetric] rotation_norm ..
  ultimately show ?thesis
    by (simp add: short_steps_def power_mult_distrib distrib_right)
qed

lemma move_player_other:
  assumes "key \<notin> translation_keys" "key \<notin> rotation_keys"
  shows "move_player g p key = Inr p"
  using assms by (simp add: move_player_def translation_keys_def rotation_keys_def)

lemma move_player_rotation:
  assumes "key \<in> rotation_keys"
  shows "move_player g p key = Inr (rotate_view (if key = CHR ''e'' then rotSpeed else - rotSpeed) p)"
proof -
  from assms consider "key = CHR ''e''" | "key = CHR ''q''"
    unfolding rotation_keys_def by blast
  then show ?thesis by cases (simp_all add: move_player_def)
qed

lemma move_player_defined:
  assumes bg: "bordered g" and op: "in_open_cell g p" and sh: "short_steps p"
  shows "\<exists>p'. move_player g p key = Inr p' \<and> in_open_cell g p' \<and> short_steps p'"
proof -
  consider (tr) "key \<in> translation_keys" | (ro) "key \<in> rotation_keys"
    | (ot) "key \<notin> translation_keys" "key \<notin> rotation_keys"
    by blast
  then show ?thesis
  proof cases
    case tr
    obtain dx dy where c: "candidate p key = (x p + dx, y p + dy)" and d: "\<bar>dx\<bar> < 1" "\<bar>dy\<bar> < 1"
      using candidate_near[OF tr sh] by blast
    obtain p' where p': "commit_axes g p (x p + dx) (y p + dy) = Inr p'" "in_open_cell g p'"
      using commit_axes_stays_open[OF bg op d] by blast
    have mv: "move_player g p key = Inr p'"
      using move_player_translation[OF tr, of g p] p'(1) by (simp add: c)
    have fr: "dirX p' = dirX p \<and> dirY p' = dirY p \<and> planeX p' = planeX p \<and> planeY p' = planeY p"
    proof -
      from commit_axes_cases[OF p'(1)] have e: "p' = p\<lparr>y := y p', x := x p'\<rparr>" by blast
      have "dirX (p\<lparr>y := y p', x := x p'\<rparr>) = dirX p \<and> dirY (p\<lparr>y := y p', x := x p'\<rparr>) = dirY p \<and>
            planeX (p\<lparr>y := y p', x := x p'\<rparr>) = planeX p \<and> planeY (p\<lparr>y := y p', x := x p'\<rparr>) = planeY p"
        by simp
      then show ?thesis using e by metis
    qed
    then have "short_steps p'" using sh short_steps_vectors[of p' p] by blast
    then show ?thesis using mv p'(2) by blast
  next
    case ro
    let ?p' = "rotate_view (if key = CHR ''e'' then rotSpeed else - rotSpeed) p"
    have "in_open_cell g ?p'"
      using op in_open_cell_position[of ?p' p g] rotate_position by blast
    moreover have "short_steps ?p'" using sh rotate_short_steps by blast
    ultimately show ?thesis using move_player_rotation[OF ro] by blast
  next
    case ot
    then show ?thesis using move_player_other op sh by blast
  qed
qed

subsection \<open>Concrete players on the program's map\<close>

lemma bordered_map_c: "bordered map_c"
  unfolding bordered_def map_c_def by simp

lemma in_open_cell_corner: "in_open_cell map_c p_corner"
  by (simp add: in_open_cell_def p_corner_def float_to_int_def open_cell_def map_c_def)

lemma short_steps_corner: "short_steps p_corner"
proof -
  have "((3::real) / 50)\<^sup>2 + (2 / 25)\<^sup>2 < 1" "((33::real) / 625)\<^sup>2 + (99 / 2500)\<^sup>2 < 1"
    by (simp_all add: power2_eq_square)
  then show ?thesis by (simp add: short_steps_def p_corner_def moveSpeed_def)
qed

lemma candidate_corner: "candidate p_corner (CHR ''w'') = (9623 / 800, 3239 / 800)"
  by (simp add: candidate_def p_corner_def moveSpeed_def)

lemma map_c_11_4: "map_at_pos map_c (3239 / 800) (383 / 32) = Inr (CHR ''0'')"
proof -
  have "float_to_int (3239 / 800) = Inr 4" "float_to_int (383 / 32) = Inr 11"
    by (simp_all add: float_to_int_def)
  moreover have "map_at map_c 4 11 = Inr (CHR ''0'')" by (simp add: map_at_def map_c_def)
  ultimately show ?thesis by (simp add: map_at_pos_def)
qed

lemma map_c_12_4: "map_at_pos map_c (3239 / 800) (9623 / 800) = Inr (CHR ''1'')"
proof -
  have "float_to_int (3239 / 800) = Inr 4" "float_to_int (9623 / 800) = Inr 12"
    by (simp_all add: float_to_int_def)
  moreover have "map_at map_c 4 12 = Inr (CHR ''1'')" by (simp add: map_at_def map_c_def)
  ultimately show ?thesis by (simp add: map_at_pos_def)
qed

lemma map_c_12_3: "map_at_pos map_c (127 / 32) (9623 / 800) = Inr (CHR ''0'')"
proof -
  have "float_to_int (127 / 32) = Inr 3" "float_to_int (9623 / 800) = Inr 12"
    by (simp_all add: float_to_int_def)
  moreover have "map_at map_c 3 12 = Inr (CHR ''0'')" by (simp add: map_at_def map_c_def)
  ultimately show ?thesis by (simp add: map_at_pos_def)
qed

lemma corner_forward: "move_player map_c p_corner (CHR ''w'') = Inr (p_corner\<lparr>y := 3239 / 800\<rparr>)"
proof -
  have xp: "x p_corner = 383 / 32" and yp: "y p_corner = 127 / 32" by (simp_all add: p_corner_def)
  have r1: "map_at_pos map_c (3239 / 800) (x p_corner) = Inr (CHR ''0'')"
    unfolding xp by (rule map_c_11_4)
  have r2: "map_at_pos map_c (if CHR ''0'' \<noteq> CHR ''1'' then 3239 / 800 else y p_corner) (9623 / 800)
              = Inr (CHR ''1'')"
    using map_c_12_4 by simp
  have "move_player map_c p_corner (CHR ''w'') = commit_axes map_c p_corner (9623 / 800) (3239 / 800)"
    using candidate_corner by (simp add: move_player_translation translation_keys_def)
  also have "\<dots> = Inr (p_corner\<lparr>y := (if CHR ''0'' \<noteq> CHR ''1'' then 3239 / 800 else y p_corner),
                              x := (if CHR ''1'' \<noteq> CHR ''1'' then 9623 / 800 else x p_corner)\<rparr>)"
    by (rule commit_axes_eval[OF r1 r2])
  also have "\<dots> = Inr (p_corner\<lparr>y := 3239 / 800\<rparr>)" by simp
  finally show ?thesis .
qed

lemma in_open_cell_far: "in_open_cell map_c p_far"
  by (simp add: in_open_cell_def p_far_def float_to_int_def open_cell_def map_c_def)

lemma far_forward: "move_player map_c p_far (CHR ''w'') = Inl OutOfBounds"
proof -
  have "float_to_int (47 / 2) = Inr 23" "float_to_int (5 / 2) = Inr 2"
    by (simp_all add: float_to_int_def)
  moreover have "map_at map_c 23 2 = Inl OutOfBounds" by (simp add: map_at_def map_c_def)
  ultimately have "map_at_pos map_c (47 / 2) (5 / 2) = Inl OutOfBounds"
    by (simp add: map_at_pos_def)
  then show ?thesis
    by (simp add: move_player_def commit_axes_def p_far_def moveSpeed_def)
qed

subsection \<open>Claims on movement\<close>

text \<open>
  C1, as amended. For a translation key (\<open>w\<close>, \<open>s\<close>, \<open>a\<close>, \<open>d\<close>) with candidate position
  \<open>(newX, newY)\<close>, whenever \<open>move_player\<close> returns a player: the new Y is committed exactly
  when the cell at (current X, new Y) is not a wall, and then the new X is committed exactly
  when the cell at (new X, Y after that update) is not a wall, so the second test sees the Y
  the first one may have committed. In particular, when the cell at (current X, new Y) is
  open and the cell at (new X, new Y) is a wall, Y is updated and X is left unchanged
  (sliding). On a bordered grid, from an open cell and with steps shorter than a cell,
  \<open>move_player\<close> does return a player.
\<close>

theorem move_player_axes:
  assumes "key \<in> translation_keys" and "candidate p key = (newX, newY)"
  shows "(\<forall>p'. move_player g p key = Inr p' \<longrightarrow>
            y p' = (if walkable g newY (x p) then newY else y p) \<and>
            x p' = (if walkable g (y p') newX then newX else x p) \<and>
            (walkable g newY (x p) \<and> \<not> walkable g newY newX \<longrightarrow> y p' = newY \<and> x p' = x p))
       \<and> (bordered g \<and> in_open_cell g p \<and> short_steps p \<longrightarrow> (\<exists>p'. move_player g p key = Inr p'))"
proof (intro conjI allI impI)
  fix p'
  assume mv: "move_player g p key = Inr p'"
  have "commit_axes g p newX newY = Inr p'"
    using mv move_player_translation[OF assms(1), of g p] by (simp add: assms(2))
  from commit_axes_cases[OF this] obtain c1 c2 where
    r1: "map_at_pos g newY (x p) = Inr c1" and
    y': "y p' = (if c1 \<noteq> CHR ''1'' then newY else y p)" and
    r2: "map_at_pos g (y p') newX = Inr c2" and
    x': "x p' = (if c2 \<noteq> CHR ''1'' then newX else x p)"
    by blast
  have w1: "walkable g newY (x p) = (c1 \<noteq> CHR ''1'')" by (simp add: walkable_def r1)
  have w2: "walkable g (y p') newX = (c2 \<noteq> CHR ''1'')" by (simp add: walkable_def r2)
  show ya: "y p' = (if walkable g newY (x p) then newY else y p)" by (simp only: w1 y')
  show xa: "x p' = (if walkable g (y p') newX then newX else x p)" by (simp only: w2 x')
  show "y p' = newY" if "walkable g newY (x p) \<and> \<not> walkable g newY newX"
    using that ya by simp
  show "x p' = x p" if "walkable g newY (x p) \<and> \<not> walkable g newY newX"
  proof -
    have "y p' = newY" using that ya by simp
    then have "\<not> walkable g (y p') newX" using that by simp
    then show ?thesis using xa by simp
  qed
next
  assume "bordered g \<and> in_open_cell g p \<and> short_steps p"
  then show "\<exists>p'. move_player g p key = Inr p'"
    using move_player_defined[of g p key] by blast
qed

theorem move_player_axes_witness:
  "CHR ''w'' \<in> translation_keys \<and>
   candidate p_corner (CHR ''w'') = (9623 / 800, 3239 / 800) \<and>
   move_player map_c p_corner (CHR ''w'') = Inr (p_corner\<lparr>y := 3239 / 800\<rparr>) \<and>
   walkable map_c (3239 / 800) (x p_corner) \<and> \<not> walkable map_c (3239 / 800) (9623 / 800) \<and>
   y (p_corner\<lparr>y := 3239 / 800\<rparr>) = 3239 / 800 \<and>
   x (p_corner\<lparr>y := 3239 / 800\<rparr>) = x p_corner"
proof -
  have k: "CHR ''w'' \<in> translation_keys" by (simp add: translation_keys_def)
  have w1: "walkable map_c (3239 / 800) (x p_corner)"
    using map_c_11_4 by (simp add: walkable_def p_corner_def)
  have w2: "\<not> walkable map_c (3239 / 800) (9623 / 800)"
    using map_c_12_4 by (simp add: walkable_def)
  show ?thesis
    using move_player_axes[OF k candidate_corner, of map_c] corner_forward k candidate_corner w1 w2
    by simp
qed

text \<open>
  C1 as stated fails: from \<open>p_corner\<close> the key \<open>w\<close> has the candidate (9623/800, 3239/800);
  the cell at (new X, current Y), cell (12, 3), is open, and still the new X is not
  committed, because the test reads row 4 after Y has been committed, where cell (12, 4)
  is a wall.
\<close>

theorem move_player_axes_counterexample:
  "candidate p_corner (CHR ''w'') = (9623 / 800, 3239 / 800) \<and>
   walkable map_c (y p_corner) (9623 / 800) \<and>
   move_player map_c p_corner (CHR ''w'') = Inr (p_corner\<lparr>y := 3239 / 800\<rparr>) \<and>
   x (p_corner\<lparr>y := 3239 / 800\<rparr>) \<noteq> 9623 / 800"
proof -
  have "walkable map_c (y p_corner) (9623 / 800)"
    using map_c_12_3 by (simp add: walkable_def p_corner_def)
  moreover have "x (p_corner\<lparr>y := 3239 / 800\<rparr>) \<noteq> 9623 / 800"
    by (simp add: p_corner_def)
  ultimately show ?thesis using candidate_corner corner_forward by simp
qed

text \<open>
  C2, as amended. On a grid with an enclosed border, for a player standing in an open cell
  whose direction and plane vectors, scaled by \<open>moveSpeed\<close>, are shorter than one cell, every
  key makes \<open>move_player\<close> return a player (no read out of bounds), that player stands in an
  open cell again, and its vectors are still that short.
\<close>

theorem move_player_keeps_open:
  assumes "bordered g" and "in_open_cell g p" and "short_steps p"
  shows "\<exists>p'. move_player g p key = Inr p' \<and> in_open_cell g p' \<and> short_steps p'"
  using assms by (rule move_player_defined)

theorem move_player_keeps_open_witness:
  "bordered map_c \<and> in_open_cell map_c p_corner \<and> short_steps p_corner \<and>
   move_player map_c p_corner (CHR ''w'') = Inr (p_corner\<lparr>y := 3239 / 800\<rparr>) \<and>
   in_open_cell map_c (p_corner\<lparr>y := 3239 / 800\<rparr>) \<and>
   short_steps (p_corner\<lparr>y := 3239 / 800\<rparr>)"
  using move_player_keeps_open[OF bordered_map_c in_open_cell_corner short_steps_corner, of "CHR ''w''"]
    bordered_map_c in_open_cell_corner short_steps_corner corner_forward
  by auto

text \<open>
  C2 as stated fails for a player whose direction vector is long: \<open>p_far\<close> stands in the open
  cell (2, 3), and the key \<open>w\<close> reads \<^verbatim>\<open>map[23][2]\<close>, outside the 16 rows of the map.
\<close>

theorem move_player_keeps_open_counterexample:
  "in_open_cell map_c p_far \<and> move_player map_c p_far (CHR ''w'') = Inl OutOfBounds"
  using in_open_cell_far far_forward by simp

text \<open>
  C10. The rotation keys \<open>e\<close> and \<open>q\<close> always return a player, at the same position; a
  translation key (\<open>w\<close>, \<open>s\<close>, \<open>a\<close>, \<open>d\<close>), whenever it returns a player, returns one with the
  same direction and plane vectors (and it does return one on a bordered grid, from an open
  cell, with steps shorter than a cell); any other key returns the player unchanged.
\<close>

theorem move_player_frame:
  "(key \<in> rotation_keys \<longrightarrow>
      (\<exists>p'. move_player g p key = Inr p' \<and> x p' = x p \<and> y p' = y p)) \<and>
   (key \<in> translation_keys \<longrightarrow>
      (\<forall>p'. move_player g p key = Inr p' \<longrightarrow>
         dirX p' = dirX p \<and> dirY p' = dirY p \<and> planeX p' = planeX p \<and> planeY p' = planeY p) \<and>
      (bordered g \<and> in_open_cell g p \<and> short_steps p \<longrightarrow> (\<exists>p'. move_player g p key = Inr p'))) \<and>
   (key \<notin> rotation_keys \<and> key \<notin> translation_keys \<longrightarrow> move_player g p key = Inr p)"
proof (intro conjI impI allI)
  assume "key \<in> rotation_keys"
  then show "\<exists>p'. move_player g p key = Inr p' \<and> x p' = x p \<and> y p' = y p"
    using move_player_rotation[of key g p] rotate_position by blast
next
  fix p'
  assume k: "key \<in> translation_keys" and mv: "move_player g p key = Inr p'"
  have "commit_axes g p (fst (candidate p key)) (snd (candidate p key)) = Inr p'"
    using mv move_player_translation[OF k, of g p] by simp
  from commit_axes_cases[OF this] have e: "p' = p\<lparr>y := y p', x := x p'\<rparr>" by blast
  have "dirX (p\<lparr>y := y p', x := x p'\<rparr>) = dirX p" "dirY (p\<lparr>y := y p', x := x p'\<rparr>) = dirY p"
    "planeX (p\<lparr>y := y p', x := x p'\<rparr>) = planeX p" "planeY (p\<lparr>y := y p', x := x p'\<rparr>) = planeY p"
    by simp_all
  then show "dirX p' = dirX p" "dirY p' = dirY p" "planeX p' = planeX p" "planeY p' = planeY p"
    using e by metis+
next
  assume "bordered g \<and> in_open_cell g p \<and> short_steps p"
  then show "\<exists>p'. move_player g p key = Inr p'"
    using move_player_defined[of g p key] by blast
next
  assume "key \<notin> rotation_keys \<and> key \<notin> translation_keys"
  then show "move_player g p key = Inr p"
    using move_player_other by blast
qed

theorem move_player_frame_witness:
  "CHR ''e'' \<in> rotation_keys \<and>
   move_player map_c p_corner (CHR ''e'') = Inr (rotate_view rotSpeed p_corner) \<and>
   x (rotate_view rotSpeed p_corner) = x p_corner \<and> y (rotate_view rotSpeed p_corner) = y p_corner \<and>
   CHR ''w'' \<in> translation_keys \<and>
   move_player map_c p_corner (CHR ''w'') = Inr (p_corner\<lparr>y := 3239 / 800\<rparr>) \<and>
   dirX (p_corner\<lparr>y := 3239 / 800\<rparr>) = dirX p_corner \<and>
   dirY (p_corner\<lparr>y := 3239 / 800\<rparr>) = dirY p_corner \<and>
   planeX (p_corner\<lparr>y := 3239 / 800\<rparr>) = planeX p_corner \<and>
   planeY (p_corner\<lparr>y := 3239 / 800\<rparr>) = planeY p_corner \<and>
   CHR ''z'' \<notin> rotation_keys \<and> CHR ''z'' \<notin> translation_keys \<and>
   move_player map_c p_corner (CHR ''z'') = Inr p_corner"
proof -
  have ke: "CHR ''e'' \<in> rotation_keys" and kw: "CHR ''w'' \<in> translation_keys"
    and kz: "CHR ''z'' \<notin> rotation_keys" "CHR ''z'' \<notin> translation_keys"
    by (simp_all add: rotation_keys_def translation_keys_def)
  have e: "move_player map_c p_corner (CHR ''e'') = Inr (rotate_view rotSpeed p_corner)"
    using move_player_rotation[OF ke] by simp
  have z: "move_player map_c p_corner (CHR ''z'') = Inr p_corner"
    using move_player_frame[of "CHR ''z''" map_c p_corner] kz by blast
  have r: "x (rotate_view rotSpeed p_corner) = x p_corner \<and> y (rotate_view rotSpeed p_corner) = y p_corner"
    using move_player_frame[of "CHR ''e''" map_c p_corner] ke e by auto
  have w: "dirX (p_corner\<lparr>y := 3239 / 800\<rparr>) = dirX p_corner \<and>
           dirY (p_corner\<lparr>y := 3239 / 800\<rparr>) = dirY p_corner \<and>
           planeX (p_corner\<lparr>y := 3239 / 800\<rparr>) = planeX p_corner \<and>
           planeY (p_corner\<lparr>y := 3239 / 800\<rparr>) = planeY p_corner"
    using move_player_frame[of "CHR ''w''" map_c p_corner] kw corner_forward by blast
  show ?thesis using ke kw kz e z r w corner_forward by blast
qed

subsection \<open>Projection and shading\<close>

lemma intensity_values:
  "intensity RED_1 = 355" "intensity RED_2 = 260" "intensity RED_3 = 190"
  "intensity RED_4 = 120" "intensity RED_5 = 70"
  by (simp_all add: intensity_def)

lemma range_get_shade: "range get_shade = {RED_1, RED_2, RED_3, RED_4, RED_5}"
proof
  show "range get_shade \<subseteq> {RED_1, RED_2, RED_3, RED_4, RED_5}"
  proof
    fix s assume "s \<in> range get_shade"
    show "s \<in> {RED_1, RED_2, RED_3, RED_4, RED_5}" by (cases s) simp_all
  qed
next
  have "get_shade 0 = RED_1" "get_shade 2 = RED_2" "get_shade 4 = RED_3"
    "get_shade 6 = RED_4" "get_shade 8 = RED_5"
    by (simp_all add: get_shade_def)
  then have "RED_1 \<in> range get_shade" "RED_2 \<in> range get_shade" "RED_3 \<in> range get_shade"
    "RED_4 \<in> range get_shade" "RED_5 \<in> range get_shade"
    by (metis rangeI)+
  then show "{RED_1, RED_2, RED_3, RED_4, RED_5} \<subseteq> range get_shade" by simp
qed

lemma get_shade_bands:
  "(get_shade d = RED_1 \<longleftrightarrow> d < 15 / 10) \<and>
   (get_shade d = RED_2 \<longleftrightarrow> 15 / 10 \<le> d \<and> d < 3) \<and>
   (get_shade d = RED_3 \<longleftrightarrow> 3 \<le> d \<and> d < 5) \<and>
   (get_shade d = RED_4 \<longleftrightarrow> 5 \<le> d \<and> d < 7) \<and>
   (get_shade d = RED_5 \<longleftrightarrow> 7 \<le> d)"
  by (simp add: get_shade_def)

lemma get_shade_antimono:
  assumes "d1 \<le> d2"
  shows "intensity (get_shade d2) \<le> intensity (get_shade d1)"
proof (cases "get_shade d1")
  case RED_1
  then show ?thesis by (cases "get_shade d2") (simp_all add: intensity_values)
next
  case RED_2
  then have "15 / 10 \<le> d2" using get_shade_bands[of d1] assms by simp
  then have "get_shade d2 \<noteq> RED_1" using get_shade_bands[of d2] by simp
  then show ?thesis using RED_2 by (cases "get_shade d2") (simp_all add: intensity_values)
next
  case RED_3
  then have "3 \<le> d2" using get_shade_bands[of d1] assms by simp
  then have "get_shade d2 \<noteq> RED_1" "get_shade d2 \<noteq> RED_2" using get_shade_bands[of d2] by simp_all
  then show ?thesis using RED_3 by (cases "get_shade d2") (simp_all add: intensity_values)
next
  case RED_4
  then have "5 \<le> d2" using get_shade_bands[of d1] assms by simp
  then have "get_shade d2 \<noteq> RED_1" "get_shade d2 \<noteq> RED_2" "get_shade d2 \<noteq> RED_3"
    using get_shade_bands[of d2] by simp_all
  then show ?thesis using RED_4 by (cases "get_shade d2") (simp_all add: intensity_values)
next
  case RED_5
  then have "7 \<le> d2" using get_shade_bands[of d1] assms by simp
  then have "get_shade d2 = RED_5" using get_shade_bands[of d2] by simp
  then show ?thesis using RED_5 by simp
qed

text \<open>
  C7. Shading is monotone: for distances \<open>d1 < d2\<close> the colour of \<open>d1\<close> is at least as bright
  as that of \<open>d2\<close>. There are exactly five colours, one per band, the bands are separated by
  the distances 1.5, 3, 5 and 7, and the brightness falls strictly from band to band.
\<close>

theorem get_shade_monotone:
  "(d1 < d2 \<longrightarrow> intensity (get_shade d2) \<le> intensity (get_shade d1)) \<and>
   card (range get_shade) = 5 \<and>
   (get_shade d = RED_1 \<longleftrightarrow> d < 15 / 10) \<and>
   (get_shade d = RED_2 \<longleftrightarrow> 15 / 10 \<le> d \<and> d < 3) \<and>
   (get_shade d = RED_3 \<longleftrightarrow> 3 \<le> d \<and> d < 5) \<and>
   (get_shade d = RED_4 \<longleftrightarrow> 5 \<le> d \<and> d < 7) \<and>
   (get_shade d = RED_5 \<longleftrightarrow> 7 \<le> d) \<and>
   intensity RED_5 < intensity RED_4 \<and> intensity RED_4 < intensity RED_3 \<and>
   intensity RED_3 < intensity RED_2 \<and> intensity RED_2 < intensity RED_1"
proof -
  have "card (range get_shade) = 5" unfolding range_get_shade by simp
  moreover have "d1 < d2 \<longrightarrow> intensity (get_shade d2) \<le> intensity (get_shade d1)"
    using get_shade_antimono[of d1 d2] by simp
  ultimately show ?thesis using get_shade_bands[of d] by (simp add: intensity_values)
qed

theorem get_shade_monotone_witness:
  "(1::real) < 4 \<and> intensity (get_shade 4) \<le> intensity (get_shade 1) \<and>
   get_shade 1 = RED_1 \<and> get_shade 4 = RED_3"
proof -
  have "get_shade 1 = RED_1" "get_shade 4 = RED_3" by (simp_all add: get_shade_def)
  then show ?thesis using get_shade_monotone[of 1 4 1] by simp
qed

lemma sdiv_2_nonneg: "0 \<le> k \<Longrightarrow> (k::int) sdiv 2 = k div 2"
  by (simp add: signed_divide_int_def sgn_if)

lemma sdiv_2_neg: "0 \<le> k \<Longrightarrow> (- k :: int) sdiv 2 = - (k div 2)"
  by (simp add: signed_divide_int_def sgn_if)

lemma wall_slice_value:
  assumes "line_height d = Inr lh" "0 \<le> lh"
  shows "wall_slice d =
           Inr (max 0 (SCREEN_HEIGHT div 2 - lh div 2),
                min (SCREEN_HEIGHT - 1) (SCREEN_HEIGHT div 2 + lh div 2),
                get_shade d)"
proof -
  have a: "(- lh) sdiv 2 = - (lh div 2)" "lh sdiv 2 = lh div 2"
    using assms(2) sdiv_2_neg sdiv_2_nonneg by simp_all
  have b: "SCREEN_HEIGHT sdiv 2 = SCREEN_HEIGHT div 2"
    by (simp add: SCREEN_HEIGHT_def sdiv_2_nonneg)
  have c: "lh \<noteq> - 2147483648" using assms(2) by simp
  show ?thesis
    unfolding wall_slice_def assms(1) sum.case Let_def a b using c
    by (simp add: max_def min_def SCREEN_HEIGHT_def)
qed

subsection \<open>The DDA loop\<close>

lemma dda_loop_hit: "hit ray \<noteq> 0 \<Longrightarrow> dda_loop n g ray = Some (Inr ray)"
  by (cases n) simp_all

lemma dda_loop_step:
  "hit ray = 0 \<Longrightarrow> dda_step g ray = Inr ray' \<Longrightarrow> dda_loop (Suc n) g ray = dda_loop n g ray'"
  by simp

lemma dda_loop_mono:
  "dda_loop k g ray = Some res \<Longrightarrow> k \<le> n \<Longrightarrow> dda_loop n g ray = Some res"
proof (induction k arbitrary: n ray)
  case 0
  then have "hit ray \<noteq> 0" and "res = Inr ray" by (auto split: if_splits)
  then show ?case by (simp add: dda_loop_hit)
next
  case (Suc k)
  then obtain m where n: "n = Suc m" and km: "k \<le> m" by (cases n) simp_all
  show ?case
  proof (cases "hit ray \<noteq> 0")
    case True
    then show ?thesis using Suc.prems(1) by (simp add: dda_loop_hit)
  next
    case False
    show ?thesis
    proof (cases "dda_step g ray")
      case (Inl e)
      then have "res = Inl e" using False Suc.prems(1) by simp
      then show ?thesis using False Inl n by simp
    next
      case (Inr ray')
      then have "dda_loop k g ray' = Some res" using False Suc.prems(1) by simp
      then have "dda_loop m g ray' = Some res" using Suc.IH km by blast
      then show ?thesis using False Inr n by simp
    qed
  qed
qed


lemma room_positive:
  assumes "strictly_inside g ray"
  shows "0 < xroom g ray \<and> 0 < yroom g ray \<and>
         xroom g ray < int (length (hd g)) - 1 \<and> yroom g ray < int (length g) - 1"
  using assms unfolding strictly_inside_def xroom_def yroom_def by auto

lemma dda_step_inside:
  assumes bg: "bordered g" and ins: "strictly_inside g ray"
    and sx: "stepX ray = 1 \<or> stepX ray = - 1" and sy: "stepY ray = 1 \<or> stepY ray = - 1"
  shows "\<exists>ray'. dda_step g ray = Inr ray' \<and> stepX ray' = stepX ray \<and> stepY ray' = stepY ray \<and>
           (hit ray' = 1 \<and> map_at g (mapY ray') (mapX ray') = Inr (CHR ''1'') \<or>
            hit ray' = hit ray \<and> strictly_inside g ray' \<and>
            xroom g ray' + yroom g ray' = xroom g ray + yroom g ray - 1)"
proof -
  let ?W = "int (length (hd g))" and ?H = "int (length g)"
  define ray1 where "ray1 =
     (if sideDistX ray < sideDistY ray
      then ray\<lparr>sideDistX := sideDistX ray + deltaDistX ray,
               mapX := mapX ray + stepX ray, side := 0\<rparr>
      else ray\<lparr>sideDistY := sideDistY ray + deltaDistY ray,
               mapY := mapY ray + stepY ray, side := 1\<rparr>)"
  have st: "stepX ray1 = stepX ray" "stepY ray1 = stepY ray" "hit ray1 = hit ray"
    unfolding ray1_def by simp_all
  have mv: "mapX ray1 = mapX ray + stepX ray \<and> mapY ray1 = mapY ray \<or>
            mapX ray1 = mapX ray \<and> mapY ray1 = mapY ray + stepY ray"
    unfolding ray1_def by simp
  have in0: "0 < mapX ray" "mapX ray < ?W - 1" "0 < mapY ray" "mapY ray < ?H - 1"
    using ins unfolding strictly_inside_def by blast+
  have bx: "0 \<le> mapX ray1" "mapX ray1 < ?W" and by1: "0 \<le> mapY ray1" "mapY ray1 < ?H"
    using mv in0 sx sy by auto
  let ?c = "g ! nat (mapY ray1) ! nat (mapX ray1)"
  have rd: "map_at g (mapY ray1) (mapX ray1) = Inr ?c"
    using map_at_in_bounds[OF bg by1 bx] .
  have step: "dda_step g ray = Inr (if ?c = CHR ''1'' then ray1\<lparr>hit := 1\<rparr> else ray1)"
    unfolding dda_step_def ray1_def[symmetric] Let_def rd by simp
  show ?thesis
  proof (cases "?c = CHR ''1''")
    case True
    let ?r = "ray1\<lparr>hit := 1\<rparr>"
    have "dda_step g ray = Inr ?r" using step True by simp
    moreover have "stepX ?r = stepX ray" "stepY ?r = stepY ray" "hit ?r = 1" using st by simp_all
    moreover have "map_at g (mapY ?r) (mapX ?r) = Inr (CHR ''1'')" using rd True by simp
    ultimately show ?thesis by blast
  next
    case False
    have nb: "\<not> (mapY ray1 = 0 \<or> mapY ray1 = ?H - 1 \<or> mapX ray1 = 0 \<or> mapX ray1 = ?W - 1)"
      using bordered_wall[OF bg by1 bx] False by blast
    then have ins1: "strictly_inside g ray1"
      unfolding strictly_inside_def using bx by1 by linarith
    have room: "xroom g ray1 + yroom g ray1 = xroom g ray + yroom g ray - 1"
      using mv sx sy unfolding xroom_def yroom_def st by auto
    have "dda_step g ray = Inr ray1" using step False by simp
    then show ?thesis using st ins1 room by blast
  qed
qed

lemma dda_loop_terminates:
  assumes bg: "bordered g"
  shows "strictly_inside g ray \<Longrightarrow> stepX ray = 1 \<or> stepX ray = - 1 \<Longrightarrow>
         stepY ray = 1 \<or> stepY ray = - 1 \<Longrightarrow> hit ray = 0 \<Longrightarrow>
         \<exists>k ray'. int k < xroom g ray + yroom g ray \<and> dda_loop k g ray = Some (Inr ray') \<and>
            hit ray' = 1 \<and> map_at g (mapY ray') (mapX ray') = Inr (CHR ''1'')"
proof (induction "nat (xroom g ray + yroom g ray)" arbitrary: ray rule: less_induct)
  case less
  note ins = less.prems(1) and sx = less.prems(2) and sy = less.prems(3) and h0 = less.prems(4)
  have rp: "0 < xroom g ray" "0 < yroom g ray" using room_positive[OF ins] by blast+
  obtain ray1 where s: "dda_step g ray = Inr ray1"
    and st: "stepX ray1 = stepX ray" "stepY ray1 = stepY ray"
    and alt: "hit ray1 = 1 \<and> map_at g (mapY ray1) (mapX ray1) = Inr (CHR ''1'') \<or>
              hit ray1 = hit ray \<and> strictly_inside g ray1 \<and>
              xroom g ray1 + yroom g ray1 = xroom g ray + yroom g ray - 1"
    using dda_step_inside[OF bg ins sx sy] by blast
  from alt show ?case
  proof
    assume a: "hit ray1 = 1 \<and> map_at g (mapY ray1) (mapX ray1) = Inr (CHR ''1'')"
    then have "dda_loop (Suc 0) g ray = Some (Inr ray1)"
      using dda_loop_step[OF h0 s, of 0] by simp
    moreover have "int (Suc 0) < xroom g ray + yroom g ray" using rp by simp
    ultimately show ?thesis using a by blast
  next
    assume b: "hit ray1 = hit ray \<and> strictly_inside g ray1 \<and>
               xroom g ray1 + yroom g ray1 = xroom g ray + yroom g ray - 1"
    then have less1: "nat (xroom g ray1 + yroom g ray1) < nat (xroom g ray + yroom g ray)"
      using rp by simp
    have sx1: "stepX ray1 = 1 \<or> stepX ray1 = - 1" and sy1: "stepY ray1 = 1 \<or> stepY ray1 = - 1"
      using st sx sy by simp_all
    have h1: "hit ray1 = 0" using b h0 by simp
    obtain k ray' where k: "int k < xroom g ray1 + yroom g ray1"
      and l: "dda_loop k g ray1 = Some (Inr ray')"
      and w: "hit ray' = 1" "map_at g (mapY ray') (mapX ray') = Inr (CHR ''1'')"
      using less.hyps[OF less1 _ sx1 sy1 h1] b by blast
    have "dda_loop (Suc k) g ray = Some (Inr ray')"
      using dda_loop_step[OF h0 s, of k] l by simp
    moreover have "int (Suc k) < xroom g ray + yroom g ray" using k b by simp
    ultimately show ?thesis using w by blast
  qed
qed


lemma wall_ahead_1:
  "wall_ahead g cx cy ax ay (Suc 0) \<Longrightarrow> map_at g (cy + ay) (cx + ax) = Inr (CHR ''1'')"
  by (simp add: wall_ahead_def)

lemma wall_ahead_Suc:
  assumes "wall_ahead g cx cy ax ay (Suc (Suc m))"
  shows "(\<exists>c. map_at g (cy + ay) (cx + ax) = Inr c \<and> c \<noteq> CHR ''1'') \<and>
         wall_ahead g (cx + ax) (cy + ay) ax ay (Suc m)"
proof -
  have ball: "\<forall>j \<in> set [1..<Suc (Suc m)].
      (case map_at g (cy + ay * int j) (cx + ax * int j) of Inl e \<Rightarrow> False | Inr c \<Rightarrow> c \<noteq> CHR ''1'')"
    using assms unfolding wall_ahead_def by blast
  have all: "case map_at g (cy + ay * int j) (cx + ax * int j) of Inl e \<Rightarrow> False | Inr c \<Rightarrow> c \<noteq> CHR ''1''"
    if "1 \<le> j" "j < Suc (Suc m)" for j
  proof -
    have "j \<in> set [1..<Suc (Suc m)]" using that unfolding set_upt atLeastLessThan_iff by blast
    with ball show ?thesis by (rule bspec)
  qed
  have last: "map_at g (cy + ay * int (Suc (Suc m))) (cx + ax * int (Suc (Suc m))) = Inr (CHR ''1'')"
    using assms unfolding wall_ahead_def by blast
  have "case map_at g (cy + ay * int 1) (cx + ax * int 1) of Inl e \<Rightarrow> False | Inr c \<Rightarrow> c \<noteq> CHR ''1''"
    by (rule all) simp_all
  then have first: "\<exists>c. map_at g (cy + ay) (cx + ax) = Inr c \<and> c \<noteq> CHR ''1''"
    by (cases "map_at g (cy + ay) (cx + ax)") simp_all
  have shift: "cy + ay + ay * int j = cy + ay * int (Suc j)" "cx + ax + ax * int j = cx + ax * int (Suc j)" for j
    by (simp_all add: algebra_simps)
  have "\<forall>j \<in> set [1..<Suc m].
          case map_at g (cy + ay + ay * int j) (cx + ax + ax * int j) of
            Inl e \<Rightarrow> False | Inr c \<Rightarrow> c \<noteq> CHR ''1''"
  proof
    fix j assume "j \<in> set [1..<Suc m]"
    then have "1 \<le> j \<and> j < Suc m" unfolding set_upt atLeastLessThan_iff .
    then have "1 \<le> Suc j" "Suc j < Suc (Suc m)" by simp_all
    then show "case map_at g (cy + ay + ay * int j) (cx + ax + ax * int j) of
            Inl e \<Rightarrow> False | Inr c \<Rightarrow> c \<noteq> CHR ''1''"
      unfolding shift by (rule all)
  qed
  moreover have "map_at g (cy + ay + ay * int (Suc m)) (cx + ax + ax * int (Suc m)) = Inr (CHR ''1'')"
    unfolding shift by (rule last)
  ultimately have "wall_ahead g (cx + ax) (cy + ay) ax ay (Suc m)"
    unfolding wall_ahead_def by simp
  then show ?thesis using first by blast
qed

lemma dda_loop_along_X:
  "wall_ahead g (mapX ray) (mapY ray) (stepX ray) 0 d \<Longrightarrow> hit ray = 0 \<Longrightarrow>
   0 \<le> deltaDistX ray \<Longrightarrow> sideDistX ray + real d * deltaDistX ray < sideDistY ray \<Longrightarrow>
   dda_loop d g ray =
     Some (Inr (ray\<lparr>sideDistX := sideDistX ray + real d * deltaDistX ray,
                     mapX := mapX ray + stepX ray * int d, side := 0, hit := 1\<rparr>))"
proof (induction d arbitrary: ray)
  case 0
  then show ?case by (simp add: wall_ahead_def)
next
  case (Suc m)
  have lt: "sideDistX ray < sideDistY ray"
  proof -
    have "0 \<le> real (Suc m) * deltaDistX ray" using Suc.prems(3) by simp
    then show ?thesis using Suc.prems(4) by linarith
  qed
  let ?r1 = "ray\<lparr>sideDistX := sideDistX ray + deltaDistX ray,
                 mapX := mapX ray + stepX ray, side := 0\<rparr>"
  show ?case
  proof (cases m)
    case 0
    have "map_at g (mapY ray) (mapX ray + stepX ray) = Inr (CHR ''1'')"
      using wall_ahead_1[of g "mapX ray" "mapY ray" "stepX ray" 0] Suc.prems(1) 0 by simp
    then have "dda_step g ray = Inr (?r1\<lparr>hit := 1\<rparr>)"
      using lt by (simp add: dda_step_def Let_def)
    then have "dda_loop (Suc 0) g ray = Some (Inr (?r1\<lparr>hit := 1\<rparr>))"
      using dda_loop_step[OF Suc.prems(2), of g _ 0] by simp
    then show ?thesis using 0 by simp
  next
    case (Suc m')
    obtain c where c: "map_at g (mapY ray) (mapX ray + stepX ray) = Inr c" "c \<noteq> CHR ''1''"
      and wa: "wall_ahead g (mapX ray + stepX ray) (mapY ray) (stepX ray) 0 (Suc m')"
      using wall_ahead_Suc[of g "mapX ray" "mapY ray" "stepX ray" 0 m'] Suc.prems(1) Suc by auto
    have s: "dda_step g ray = Inr ?r1"
      using lt c by (simp add: dda_step_def Let_def)
    have wa1: "wall_ahead g (mapX ?r1) (mapY ?r1) (stepX ?r1) 0 m" using wa Suc by simp
    have h1: "hit ?r1 = 0" using Suc.prems(2) by simp
    have d1: "0 \<le> deltaDistX ?r1" using Suc.prems(3) by simp
    have c1: "sideDistX ?r1 + real m * deltaDistX ?r1 < sideDistY ?r1"
      using Suc.prems(4) by (simp add: algebra_simps)
    have "dda_loop (Suc m) g ray = dda_loop m g ?r1"
      using dda_loop_step[OF Suc.prems(2) s] .
    also have "\<dots> = Some (Inr (?r1\<lparr>sideDistX := sideDistX ?r1 + real m * deltaDistX ?r1,
                     mapX := mapX ?r1 + stepX ?r1 * int m, side := 0, hit := 1\<rparr>))"
      using Suc.IH[OF wa1 h1 d1 c1] .
    also have "\<dots> = Some (Inr (ray\<lparr>sideDistX := sideDistX ray + real (Suc m) * deltaDistX ray,
                     mapX := mapX ray + stepX ray * int (Suc m), side := 0, hit := 1\<rparr>))"
      by (simp add: algebra_simps)
    finally show ?thesis .
  qed
qed

lemma dda_loop_along_Y:
  "wall_ahead g (mapX ray) (mapY ray) 0 (stepY ray) d \<Longrightarrow> hit ray = 0 \<Longrightarrow>
   0 \<le> deltaDistY ray \<Longrightarrow> sideDistY ray + real d * deltaDistY ray \<le> sideDistX ray \<Longrightarrow>
   dda_loop d g ray =
     Some (Inr (ray\<lparr>sideDistY := sideDistY ray + real d * deltaDistY ray,
                     mapY := mapY ray + stepY ray * int d, side := 1, hit := 1\<rparr>))"
proof (induction d arbitrary: ray)
  case 0
  then show ?case by (simp add: wall_ahead_def)
next
  case (Suc m)
  have lt: "\<not> sideDistX ray < sideDistY ray"
  proof -
    have "0 \<le> real (Suc m) * deltaDistY ray" using Suc.prems(3) by simp
    then show ?thesis using Suc.prems(4) by linarith
  qed
  let ?r1 = "ray\<lparr>sideDistY := sideDistY ray + deltaDistY ray,
                 mapY := mapY ray + stepY ray, side := 1\<rparr>"
  show ?case
  proof (cases m)
    case 0
    have "map_at g (mapY ray + stepY ray) (mapX ray) = Inr (CHR ''1'')"
      using wall_ahead_1[of g "mapX ray" "mapY ray" 0 "stepY ray"] Suc.prems(1) 0 by simp
    then have "dda_step g ray = Inr (?r1\<lparr>hit := 1\<rparr>)"
      using lt by (simp add: dda_step_def Let_def)
    then have "dda_loop (Suc 0) g ray = Some (Inr (?r1\<lparr>hit := 1\<rparr>))"
      using dda_loop_step[OF Suc.prems(2), of g _ 0] by simp
    then show ?thesis using 0 by simp
  next
    case (Suc m')
    obtain c where c: "map_at g (mapY ray + stepY ray) (mapX ray) = Inr c" "c \<noteq> CHR ''1''"
      and wa: "wall_ahead g (mapX ray) (mapY ray + stepY ray) 0 (stepY ray) (Suc m')"
      using wall_ahead_Suc[of g "mapX ray" "mapY ray" 0 "stepY ray" m'] Suc.prems(1) Suc by auto
    have s: "dda_step g ray = Inr ?r1"
      using lt c by (simp add: dda_step_def Let_def)
    have wa1: "wall_ahead g (mapX ?r1) (mapY ?r1) 0 (stepY ?r1) m" using wa Suc by simp
    have h1: "hit ?r1 = 0" using Suc.prems(2) by simp
    have d1: "0 \<le> deltaDistY ?r1" using Suc.prems(3) by simp
    have c1: "sideDistY ?r1 + real m * deltaDistY ?r1 \<le> sideDistX ?r1"
      using Suc.prems(4) by (simp add: algebra_simps)
    have "dda_loop (Suc m) g ray = dda_loop m g ?r1"
      using dda_loop_step[OF Suc.prems(2) s] .
    also have "\<dots> = Some (Inr (?r1\<lparr>sideDistY := sideDistY ?r1 + real m * deltaDistY ?r1,
                     mapY := mapY ?r1 + stepY ?r1 * int m, side := 1, hit := 1\<rparr>))"
      using Suc.IH[OF wa1 h1 d1 c1] .
    also have "\<dots> = Some (Inr (ray\<lparr>sideDistY := sideDistY ray + real (Suc m) * deltaDistY ray,
                     mapY := mapY ray + stepY ray * int (Suc m), side := 1, hit := 1\<rparr>))"
      by (simp add: algebra_simps)
    finally show ?thesis .
  qed
qed

lemma init_ray_value:
  assumes "float_to_int (x p) = Inr cx" "float_to_int (y p) = Inr cy"
  shows "init_ray ray column p =
     Inr (ray\<lparr>cameraX := real_of_int (2 * column) / real_of_int SCREEN_WIDTH - 1,
              rayDirX := dirX p + planeX p * (real_of_int (2 * column) / real_of_int SCREEN_WIDTH - 1),
              rayDirY := dirY p + planeY p * (real_of_int (2 * column) / real_of_int SCREEN_WIDTH - 1),
              mapX := cx, mapY := cy,
              deltaDistX :=
                (if dirX p + planeX p * (real_of_int (2 * column) / real_of_int SCREEN_WIDTH - 1) \<noteq> 0
                 then \<bar>1 / (dirX p + planeX p * (real_of_int (2 * column) / real_of_int SCREEN_WIDTH - 1))\<bar>
                 else 10 ^ 30),
              deltaDistY :=
                (if dirY p + planeY p * (real_of_int (2 * column) / real_of_int SCREEN_WIDTH - 1) \<noteq> 0
                 then \<bar>1 / (dirY p + planeY p * (real_of_int (2 * column) / real_of_int SCREEN_WIDTH - 1))\<bar>
                 else 10 ^ 30),
              hit := 0\<rparr>)"
  unfolding init_ray_def Let_def assms sum.case ..

lemma init_ray_cell:
  assumes "float_to_int (x p) = Inr cx" "float_to_int (y p) = Inr cy"
  shows "\<exists>ray1. init_ray ray column p = Inr ray1 \<and> mapX ray1 = cx \<and> mapY ray1 = cy \<and> hit ray1 = 0"
  unfolding init_ray_value[OF assms] by simp

lemma compute_initial_steps_fields:
  "stepX (compute_initial_steps ray p) = (if rayDirX ray < 0 then - 1 else 1)"
  "stepY (compute_initial_steps ray p) = (if rayDirY ray < 0 then - 1 else 1)"
  "mapX (compute_initial_steps ray p) = mapX ray"
  "mapY (compute_initial_steps ray p) = mapY ray"
  "hit (compute_initial_steps ray p) = hit ray"
  by (simp_all add: compute_initial_steps_def Let_def)

lemma perform_dda_value:
  assumes "dda_loop n g ray = Some (Inr ray')"
  shows "perform_dda n g ray =
     Some (Inr (ray'\<lparr>perpWallDist := (if side ray' = 0 then sideDistX ray' - deltaDistX ray'
                                      else sideDistY ray' - deltaDistY ray')\<rparr>))"
  unfolding perform_dda_def assms by simp

lemma perform_dda_distance:
  assumes "perform_dda n g ray = Some (Inr ray')"
  shows "perpWallDist ray' = (if side ray' = 0 then sideDistX ray' - deltaDistX ray'
                              else sideDistY ray' - deltaDistY ray')"
proof (cases "dda_loop n g ray")
  case None
  then show ?thesis using assms by (simp add: perform_dda_def)
next
  case (Some res)
  show ?thesis
  proof (cases res)
    case (Inl e)
    then show ?thesis using assms Some by (simp add: perform_dda_def)
  next
    case (Inr r)
    then have "dda_loop n g ray = Some (Inr r)" using Some by simp
    from perform_dda_value[OF this] assms
    have "ray' = r\<lparr>perpWallDist := (if side r = 0 then sideDistX r - deltaDistX r
                                      else sideDistY r - deltaDistY r)\<rparr>"
      by simp
    then show ?thesis by simp
  qed
qed

lemma perform_dda_finds_wall:
  assumes bg: "bordered g" and ins: "strictly_inside g ray"
    and sx: "stepX ray = 1 \<or> stepX ray = - 1" and sy: "stepY ray = 1 \<or> stepY ray = - 1"
    and h0: "hit ray = 0"
  shows "\<exists>ray'. perform_dda (length (hd g) + length g) g ray = Some (Inr ray') \<and>
           hit ray' = 1 \<and> map_at g (mapY ray') (mapX ray') = Inr (CHR ''1'')"
proof -
  obtain k r where k: "int k < xroom g ray + yroom g ray"
    and l: "dda_loop k g ray = Some (Inr r)"
    and w: "hit r = 1" "map_at g (mapY r) (mapX r) = Inr (CHR ''1'')"
    using dda_loop_terminates[OF bg ins sx sy h0] by blast
  have "xroom g ray < int (length (hd g)) - 1" "yroom g ray < int (length g) - 1"
    using room_positive[OF ins] by blast+
  then have "k \<le> length (hd g) + length g" using k by linarith
  then have "dda_loop (length (hd g) + length g) g ray = Some (Inr r)"
    using dda_loop_mono[OF l] by blast
  from perform_dda_value[OF this] w show ?thesis by simp
qed

lemma cast_ray_finds_wall:
  assumes bg: "bordered g"
    and cx: "float_to_int (x p) = Inr cx" and cy: "float_to_int (y p) = Inr cy"
    and ins: "0 < cx" "cx < int (length (hd g)) - 1" "0 < cy" "cy < int (length g) - 1"
  shows "\<exists>ray'. cast_ray (length (hd g) + length g) g ray column p = Some (Inr ray') \<and>
           hit ray' = 1 \<and> map_at g (mapY ray') (mapX ray') = Inr (CHR ''1'')"
proof -
  obtain ray1 where i: "init_ray ray column p = Inr ray1"
    and f: "mapX ray1 = cx" "mapY ray1 = cy" "hit ray1 = 0"
    using init_ray_cell[OF cx cy] by blast
  let ?r2 = "compute_initial_steps ray1 p"
  have "strictly_inside g ?r2"
    unfolding strictly_inside_def compute_initial_steps_fields f using ins by simp
  moreover have "stepX ?r2 = 1 \<or> stepX ?r2 = - 1" "stepY ?r2 = 1 \<or> stepY ?r2 = - 1"
    unfolding compute_initial_steps_fields by simp_all
  moreover have "hit ?r2 = 0" unfolding compute_initial_steps_fields f ..
  ultimately have "\<exists>ray'. perform_dda (length (hd g) + length g) g ?r2 = Some (Inr ray') \<and>
           hit ray' = 1 \<and> map_at g (mapY ray') (mapX ray') = Inr (CHR ''1'')"
    using perform_dda_finds_wall[OF bg] by blast
  then show ?thesis unfolding cast_ray_def i by simp
qed

lemma float_to_int_in_cell:
  assumes "0 \<le> c" "c < 2147483647" "0 \<le> f" "f < 1"
  shows "float_to_int (real_of_int c + f) = Inr c"
proof -
  have "\<lfloor>real_of_int c + f\<rfloor> = c" using assms(3,4) by linarith
  moreover have "0 \<le> real_of_int c + f" using assms(1,3) by simp
  moreover have "real_of_int c + f < 2147483648" using assms(2,4) by simp
  ultimately show ?thesis by (simp add: float_to_int_def)
qed

lemma centre_column: "real_of_int (2 * (SCREEN_WIDTH div 2)) / real_of_int SCREEN_WIDTH - 1 = 0"
  by (simp add: SCREEN_WIDTH_def)

lemma cast_ray_along_X:
  assumes s: "s = 1 \<or> s = - 1"
    and b: "0 \<le> cx" "cx < 2147483647" "0 \<le> cy" "cy < 2147483647"
    and f: "0 \<le> f" "f < 1"
    and px: "x p = real_of_int cx + f" and py: "y p = real_of_int cy + 1 / 2"
    and dir: "dirX p = real_of_int s" "dirY p = 0"
    and wall: "wall_ahead g cx cy s 0 d" and dsmall: "real d < 10 ^ 29"
  shows "cast_ray d g ray (SCREEN_WIDTH div 2) p =
     Some (Inr (ray\<lparr>cameraX := 0, rayDirX := real_of_int s, rayDirY := 0,
                     mapX := cx + s * int d, mapY := cy,
                     deltaDistX := 1, deltaDistY := 10 ^ 30, hit := 1,
                     stepX := s, sideDistX := (if s = 1 then 1 - f else f) + real d,
                     stepY := 1, sideDistY := 10 ^ 30 / 2,
                     side := 0, perpWallDist := (if s = 1 then 1 - f else f) + real d - 1\<rparr>))"
proof -
  let ?t = "if s = 1 then 1 - f else f"
  let ?r1 = "ray\<lparr>cameraX := 0, rayDirX := real_of_int s, rayDirY := 0, mapX := cx, mapY := cy,
                 deltaDistX := 1, deltaDistY := 10 ^ 30, hit := 0\<rparr>"
  let ?r2 = "?r1\<lparr>stepX := s, sideDistX := ?t, stepY := 1, sideDistY := 10 ^ 30 / 2\<rparr>"
  have fx: "float_to_int (x p) = Inr cx"
    unfolding px using b f float_to_int_in_cell by simp
  have fy: "float_to_int (y p) = Inr cy"
    unfolding py using b float_to_int_in_cell[of cy "1 / 2"] by simp
  have s0: "real_of_int s \<noteq> 0" and s1: "\<bar>1 / real_of_int s\<bar> = 1" using s by auto
  have i: "init_ray ray (SCREEN_WIDTH div 2) p = Inr ?r1"
    unfolding init_ray_value[OF fx fy] centre_column dir using s0 s1 by simp
  have st: "compute_initial_steps ?r1 p = ?r2"
  proof (cases "s = 1")
    case True
    then show ?thesis by (simp add: compute_initial_steps_def Let_def px py)
  next
    case False
    then have "s = - 1" using s by simp
    then show ?thesis by (simp add: compute_initial_steps_def Let_def px py)
  qed
  have t: "0 \<le> ?t" "?t \<le> 1" using f by simp_all
  have wa: "wall_ahead g (mapX ?r2) (mapY ?r2) (stepX ?r2) 0 d" using wall by simp
  have h0: "hit ?r2 = 0" and d0: "0 \<le> deltaDistX ?r2" by simp_all
  have "?t + real d < 10 ^ 30 / 2" using dsmall t(2) by simp
  then have c: "sideDistX ?r2 + real d * deltaDistX ?r2 < sideDistY ?r2" by simp
  have l: "dda_loop d g ?r2 =
     Some (Inr (?r2\<lparr>sideDistX := sideDistX ?r2 + real d * deltaDistX ?r2,
                     mapX := mapX ?r2 + stepX ?r2 * int d, side := 0, hit := 1\<rparr>))"
    using dda_loop_along_X[OF wa h0 d0 c] .
  have "cast_ray d g ray (SCREEN_WIDTH div 2) p = perform_dda d g ?r2"
    unfolding cast_ray_def i sum.case st ..
  also note perform_dda_value[OF l]
  finally show ?thesis by simp
qed

lemma cast_ray_along_Y:
  assumes s: "s = 1 \<or> s = - 1"
    and b: "0 \<le> cx" "cx < 2147483647" "0 \<le> cy" "cy < 2147483647"
    and px: "x p = real_of_int cx + 1 / 2" and py: "y p = real_of_int cy + 1 / 2"
    and dir: "dirX p = 0" "dirY p = real_of_int s"
    and wall: "wall_ahead g cx cy 0 s d" and dsmall: "real d < 10 ^ 29"
  shows "cast_ray d g ray (SCREEN_WIDTH div 2) p =
     Some (Inr (ray\<lparr>cameraX := 0, rayDirX := 0, rayDirY := real_of_int s,
                     mapX := cx, mapY := cy + s * int d,
                     deltaDistX := 10 ^ 30, deltaDistY := 1, hit := 1,
                     stepX := 1, sideDistX := 10 ^ 30 / 2,
                     stepY := s, sideDistY := 1 / 2 + real d,
                     side := 1, perpWallDist := real d - 1 / 2\<rparr>))"
proof -
  let ?r1 = "ray\<lparr>cameraX := 0, rayDirX := 0, rayDirY := real_of_int s, mapX := cx, mapY := cy,
                 deltaDistX := 10 ^ 30, deltaDistY := 1, hit := 0\<rparr>"
  let ?r2 = "?r1\<lparr>stepX := 1, sideDistX := 10 ^ 30 / 2, stepY := s, sideDistY := 1 / 2\<rparr>"
  have fx: "float_to_int (x p) = Inr cx"
    unfolding px using b float_to_int_in_cell[of cx "1 / 2"] by simp
  have fy: "float_to_int (y p) = Inr cy"
    unfolding py using b float_to_int_in_cell[of cy "1 / 2"] by simp
  have s0: "real_of_int s \<noteq> 0" and s1: "\<bar>1 / real_of_int s\<bar> = 1" using s by auto
  have i: "init_ray ray (SCREEN_WIDTH div 2) p = Inr ?r1"
    unfolding init_ray_value[OF fx fy] centre_column dir using s0 s1 by simp
  have st: "compute_initial_steps ?r1 p = ?r2"
  proof (cases "s = 1")
    case True
    then show ?thesis by (simp add: compute_initial_steps_def Let_def px py)
  next
    case False
    then have "s = - 1" using s by simp
    then show ?thesis by (simp add: compute_initial_steps_def Let_def px py)
  qed
  have wa: "wall_ahead g (mapX ?r2) (mapY ?r2) 0 (stepY ?r2) d" using wall by simp
  have h0: "hit ?r2 = 0" and d0: "0 \<le> deltaDistY ?r2" by simp_all
  have c: "sideDistY ?r2 + real d * deltaDistY ?r2 \<le> sideDistX ?r2" using dsmall by simp
  have l: "dda_loop d g ?r2 =
     Some (Inr (?r2\<lparr>sideDistY := sideDistY ?r2 + real d * deltaDistY ?r2,
                     mapY := mapY ?r2 + stepY ?r2 * int d, side := 1, hit := 1\<rparr>))"
    using dda_loop_along_Y[OF wa h0 d0 c] .
  have "cast_ray d g ray (SCREEN_WIDTH div 2) p = perform_dda d g ?r2"
    unfolding cast_ray_def i sum.case st ..
  also note perform_dda_value[OF l]
  finally show ?thesis by simp
qed

subsection \<open>Facts about the program's map and start position\<close>

lemma spawn_at_fields:
  "x (spawn_at cx cy) = real_of_int cx + 1 / 2" "y (spawn_at cx cy) = real_of_int cy + 1 / 2"
  "dirX (spawn_at cx cy) = 0" "dirY (spawn_at cx cy) = - 1"
  "planeX (spawn_at cx cy) = 66 / 100" "planeY (spawn_at cx cy) = 0"
  by (simp_all add: spawn_at_def)

lemma wall_north_of_spawn: "wall_ahead map_c 9 14 0 (- 1) 3"
proof -
  have "map_at map_c 13 9 = Inr (CHR ''0'')" "map_at map_c 12 9 = Inr (CHR ''0'')"
    "map_at map_c 11 9 = Inr (CHR ''1'')"
    by (simp_all add: map_at_def map_c_def)
  moreover have "[1..<3] = [1, 2::nat]" by (simp add: upt_rec)
  ultimately show ?thesis by (simp add: wall_ahead_def)
qed

lemma wall_west_of_p_wall: "wall_ahead map_c 2 3 (- 1) 0 (Suc 0)"
proof -
  have "map_at map_c 3 1 = Inr (CHR ''1'')" by (simp add: map_at_def map_c_def)
  then show ?thesis by (simp add: wall_ahead_def)
qed

lemma in_open_cell_wall: "in_open_cell map_c p_wall"
  by (simp add: in_open_cell_def p_wall_def float_to_int_def open_cell_def map_c_def)

lemma cast_ray_spawn:
  "cast_ray 3 map_c ray0 (SCREEN_WIDTH div 2) (spawn_at 9 14) =
     Some (Inr \<lparr>cameraX = 0, rayDirX = 0, rayDirY = - 1, mapX = 9, mapY = 11,
        deltaDistX = 10 ^ 30, deltaDistY = 1, sideDistX = 10 ^ 30 / 2, sideDistY = 7 / 2,
        stepX = 1, stepY = - 1, hit = 1, side = 1, perpWallDist = 5 / 2\<rparr>)"
proof -
  have "cast_ray 3 map_c ray0 (SCREEN_WIDTH div 2) (spawn_at 9 14) =
     Some (Inr (ray0\<lparr>cameraX := 0, rayDirX := 0, rayDirY := real_of_int (- 1),
                     mapX := 9, mapY := 14 + (- 1) * int 3,
                     deltaDistX := 10 ^ 30, deltaDistY := 1, hit := 1,
                     stepX := 1, sideDistX := 10 ^ 30 / 2,
                     stepY := - 1, sideDistY := 1 / 2 + real 3,
                     side := 1, perpWallDist := real 3 - 1 / 2\<rparr>))"
    by (rule cast_ray_along_Y[where cx = 9 and cy = 14])
       (simp_all add: spawn_at_fields wall_north_of_spawn)
  then show ?thesis by (simp add: ray0_def)
qed

lemma cast_ray_p_wall:
  "cast_ray 1 map_c ray0 (SCREEN_WIDTH div 2) p_wall =
     Some (Inr \<lparr>cameraX = 0, rayDirX = - 1, rayDirY = 0, mapX = 1, mapY = 3,
        deltaDistX = 1, deltaDistY = 10 ^ 30, sideDistX = 1, sideDistY = 10 ^ 30 / 2,
        stepX = - 1, stepY = 1, hit = 1, side = 0, perpWallDist = 0\<rparr>)"
proof -
  have "cast_ray 1 map_c ray0 (SCREEN_WIDTH div 2) p_wall =
     Some (Inr (ray0\<lparr>cameraX := 0, rayDirX := real_of_int (- 1), rayDirY := 0,
                     mapX := 2 + (- 1) * int 1, mapY := 3,
                     deltaDistX := 1, deltaDistY := 10 ^ 30, hit := 1,
                     stepX := - 1, sideDistX := (if (- 1::int) = 1 then 1 - 0 else 0) + real 1,
                     stepY := 1, sideDistY := 10 ^ 30 / 2,
                     side := 0, perpWallDist := (if (- 1::int) = 1 then 1 - 0 else 0) + real 1 - 1\<rparr>))"
    by (rule cast_ray_along_X[where cx = 2 and cy = 3 and f = 0])
       (simp_all add: p_wall_def wall_west_of_p_wall)
  then show ?thesis by (simp add: ray0_def)
qed

lemma render_column_p_wall:
  "render_column 1 map_c p_wall (SCREEN_WIDTH div 2) (ray0, buffers0) = Some (Inl FloatToInt)"
proof -
  have "wall_slice 0 = Inl FloatToInt" by (simp add: wall_slice_def line_height_def)
  then show ?thesis
    unfolding render_column_def fst_conv snd_conv cast_ray_p_wall
    by (simp add: compute_wall_slice_def)
qed

subsection \<open>Claims on ray casting\<close>

text \<open>
  C3. On a grid with an enclosed border, the DDA loop started on any ray that has not hit
  yet, steps by one cell per axis (\<open>stepX\<close>, \<open>stepY\<close> are 1 or -1, as ray setup produces
  them) and stands in a cell strictly inside the grid, whatever its side and delta
  distances, comes to an end within \<open>gridWidth + gridHeight\<close> passes, in a wall cell, and
  without reading the grid out of bounds. So does the whole cast of a column from a player
  whose cell is strictly inside the grid.
\<close>

theorem dda_terminates:
  assumes "bordered g"
  shows "(strictly_inside g ray \<and> (stepX ray = 1 \<or> stepX ray = - 1) \<and>
          (stepY ray = 1 \<or> stepY ray = - 1) \<and> hit ray = 0 \<longrightarrow>
            (\<exists>ray'. perform_dda (length (hd g) + length g) g ray = Some (Inr ray') \<and>
               hit ray' = 1 \<and> map_at g (mapY ray') (mapX ray') = Inr (CHR ''1''))) \<and>
         (float_to_int (x p) = Inr cx \<and> float_to_int (y p) = Inr cy \<and>
          0 < cx \<and> cx < int (length (hd g)) - 1 \<and> 0 < cy \<and> cy < int (length g) - 1 \<longrightarrow>
            (\<exists>ray'. cast_ray (length (hd g) + length g) g ray column p = Some (Inr ray') \<and>
               hit ray' = 1 \<and> map_at g (mapY ray') (mapX ray') = Inr (CHR ''1'')))"
  using perform_dda_finds_wall[OF assms, of ray] cast_ray_finds_wall[OF assms, of p cx cy ray column]
  by blast

theorem dda_terminates_witness:
  "bordered map_c \<and>
   float_to_int (x (spawn_at 9 14)) = Inr 9 \<and> float_to_int (y (spawn_at 9 14)) = Inr 14 \<and>
   (0::int) < 9 \<and> 9 < int (length (hd map_c)) - 1 \<and> (0::int) < 14 \<and> 14 < int (length map_c) - 1 \<and>
   length (hd map_c) + length map_c = 32 \<and>
   (\<exists>ray'. cast_ray 32 map_c ray0 (SCREEN_WIDTH div 2) (spawn_at 9 14) = Some (Inr ray') \<and>
      hit ray' = 1 \<and> map_at map_c (mapY ray') (mapX ray') = Inr (CHR ''1''))"
proof -
  have f: "float_to_int (x (spawn_at 9 14)) = Inr 9" "float_to_int (y (spawn_at 9 14)) = Inr 14"
    by (simp_all add: spawn_at_def float_to_int_def)
  have l: "length (hd map_c) = 16" "length map_c = 16" by (simp_all add: map_c_def)
  show ?thesis
    using dda_terminates[OF bordered_map_c, where ray = ray0 and p = "spawn_at 9 14" and cx = 9
          and cy = 14 and column = "SCREEN_WIDTH div 2"]
      bordered_map_c f l
    by simp
qed

text \<open>
  C4, as amended. The distance \<open>perform_dda\<close> returns is \<open>sideDistX - deltaDistX\<close> when the
  last step was on the X axis (\<open>side = 0\<close>) and \<open>sideDistY - deltaDistY\<close> otherwise. For a
  player at the centre of cell \<open>(cx, cy)\<close> whose direction is one of the four unit vectors
  along the grid axes, with the first wall in that direction \<open>d\<close> cells away (the cell
  reached after \<open>d\<close> steps), the ray of the centre column ends in that wall cell after \<open>d\<close>
  passes and its distance is \<open>d - 1/2\<close>: the distance from the cell's centre to the near face
  of the wall.
\<close>

theorem axis_ray_distance:
  assumes ax: "(ax, ay) \<in> {(1, 0), (- 1, 0), (0, 1), (0, - 1)}"
    and b: "0 \<le> cx" "cx < 2147483647" "0 \<le> cy" "cy < 2147483647"
    and px: "x p = real_of_int cx + 1 / 2" and py: "y p = real_of_int cy + 1 / 2"
    and dir: "dirX p = real_of_int ax" "dirY p = real_of_int ay"
    and wall: "wall_ahead g cx cy ax ay d" and dsmall: "real d < 10 ^ 29"
  shows "(\<exists>ray'. cast_ray d g ray (SCREEN_WIDTH div 2) p = Some (Inr ray') \<and>
            perpWallDist ray' = real d - 1 / 2 \<and>
            side ray' = (if ay = 0 then 0 else 1) \<and>
            mapX ray' = cx + ax * int d \<and> mapY ray' = cy + ay * int d \<and> hit ray' = 1) \<and>
         (\<forall>n g' r r'. perform_dda n g' r = Some (Inr r') \<longrightarrow>
            perpWallDist r' = (if side r' = 0 then sideDistX r' - deltaDistX r'
                               else sideDistY r' - deltaDistY r'))"
proof
  show "\<forall>n g' r r'. perform_dda n g' r = Some (Inr r') \<longrightarrow>
            perpWallDist r' = (if side r' = 0 then sideDistX r' - deltaDistX r'
                               else sideDistY r' - deltaDistY r')"
    using perform_dda_distance by blast
next
  from ax consider (X) "ay = 0" "ax = 1 \<or> ax = - 1" | (Y) "ax = 0" "ay = 1 \<or> ay = - 1"
    by auto
  then show "\<exists>ray'. cast_ray d g ray (SCREEN_WIDTH div 2) p = Some (Inr ray') \<and>
            perpWallDist ray' = real d - 1 / 2 \<and>
            side ray' = (if ay = 0 then 0 else 1) \<and>
            mapX ray' = cx + ax * int d \<and> mapY ray' = cy + ay * int d \<and> hit ray' = 1"
  proof cases
    case X
    have w: "wall_ahead g cx cy ax 0 d" using wall X(1) by simp
    have dy: "dirY p = 0" using dir(2) X(1) by simp
    have h: "(0::real) \<le> 1 / 2" "(1::real) / 2 < 1" by simp_all
    show ?thesis
      unfolding cast_ray_along_X[OF X(2) b h px py dir(1) dy w dsmall, of ray]
      using X by auto
  next
    case Y
    have w: "wall_ahead g cx cy 0 ay d" using wall Y(1) by simp
    have dx: "dirX p = 0" using dir(1) Y(1) by simp
    show ?thesis
      unfolding cast_ray_along_Y[OF Y(2) b px py dx dir(2) w dsmall, of ray]
      using Y by auto
  qed
qed

theorem axis_ray_distance_witness:
  "wall_ahead map_c 9 14 0 (- 1) 3 \<and>
   x (spawn_at 9 14) = real_of_int 9 + 1 / 2 \<and> y (spawn_at 9 14) = real_of_int 14 + 1 / 2 \<and>
   dirX (spawn_at 9 14) = real_of_int 0 \<and> dirY (spawn_at 9 14) = real_of_int (- 1) \<and>
   (\<exists>ray'. cast_ray 3 map_c ray0 (SCREEN_WIDTH div 2) (spawn_at 9 14) = Some (Inr ray') \<and>
      perpWallDist ray' = real 3 - 1 / 2 \<and> side ray' = 1 \<and> mapX ray' = 9 \<and> mapY ray' = 11)"
proof -
  have a: "((0::int), (- 1::int)) \<in> {(1, 0), (- 1, 0), (0, 1), (0, - 1)}" by simp
  have f: "x (spawn_at 9 14) = real_of_int 9 + 1 / 2" "y (spawn_at 9 14) = real_of_int 14 + 1 / 2"
    "dirX (spawn_at 9 14) = real_of_int 0" "dirY (spawn_at 9 14) = real_of_int (- 1)"
    by (simp_all add: spawn_at_fields)
  have d: "real 3 < 10 ^ 29" by simp
  from axis_ray_distance[OF a _ _ _ _ f wall_north_of_spawn d, of ray0]
  have "\<exists>ray'. cast_ray 3 map_c ray0 (SCREEN_WIDTH div 2) (spawn_at 9 14) = Some (Inr ray') \<and>
      perpWallDist ray' = real 3 - 1 / 2 \<and> side ray' = 1 \<and> mapX ray' = 9 \<and> mapY ray' = 11"
    by auto
  then show ?thesis using f wall_north_of_spawn by blast
qed

text \<open>
  C4 as stated fails: from the program's start position, the centre (9.5, 14.5) of cell
  (9, 14) facing north, the first wall is cell (9, 11), three cells away; the ray of the
  centre column returns the distance 5/2, half a cell less than 3.
\<close>

theorem axis_ray_distance_counterexample:
  "wall_ahead map_c 9 14 0 (- 1) 3 \<and>
   map_option (map_sum id perpWallDist)
     (cast_ray 3 map_c ray0 (SCREEN_WIDTH div 2) (spawn_at 9 14)) = Some (Inr (5 / 2)) \<and>
   \<bar>5 / 2 - 3\<bar> = (1 / 2 :: real)"
  using wall_north_of_spawn by (simp add: cast_ray_spawn)

subsection \<open>Claims on projection\<close>

lemma pow2_pos: "0 < pow2 k"
  by (simp add: pow2_def)

lemma round_even_nonneg:
  assumes "0 \<le> r"
  shows "0 \<le> round_even r"
proof -
  have "0 \<le> \<lfloor>r\<rfloor>" using assms by simp
  then show ?thesis by (simp add: round_even_def Let_def)
qed

lemma binary32_nonneg:
  assumes "0 \<le> q"
  shows "0 \<le> binary32 q"
proof -
  let ?k = "max (expo \<bar>q\<bar>) (- 126) - 23"
  have "0 \<le> q / pow2 ?k" using assms pow2_pos[of ?k] by simp
  then have "0 \<le> round_even (q / pow2 ?k)" by (rule round_even_nonneg)
  then have "0 \<le> real_of_int (round_even (q / pow2 ?k)) * pow2 ?k"
    using pow2_pos[of ?k] by simp
  then show ?thesis by (simp add: binary32_def Let_def)
qed

lemma line_height_value:
  assumes "0 < d" "binary32 (real_of_int SCREEN_HEIGHT / d) < 2147483648"
  shows "line_height d = Inr \<lfloor>binary32 (real_of_int SCREEN_HEIGHT / d)\<rfloor> \<and>
         0 \<le> \<lfloor>binary32 (real_of_int SCREEN_HEIGHT / d)\<rfloor> \<and>
         \<lfloor>binary32 (real_of_int SCREEN_HEIGHT / d)\<rfloor> \<le> 2147483647"
proof -
  let ?q = "binary32 (real_of_int SCREEN_HEIGHT / d)"
  have "0 \<le> real_of_int SCREEN_HEIGHT / d" using assms(1) by (simp add: SCREEN_HEIGHT_def)
  then have q0: "0 \<le> ?q" by (rule binary32_nonneg)
  have "float_to_int ?q = Inr \<lfloor>?q\<rfloor>" using q0 assms(2) by (simp add: float_to_int_def)
  then have "line_height d = Inr \<lfloor>?q\<rfloor>" using assms(1) by (simp add: line_height_def)
  moreover have "0 \<le> \<lfloor>?q\<rfloor>" using q0 by simp
  moreover have "\<lfloor>?q\<rfloor> < 2147483648" using assms(2) by (simp add: floor_less_iff)
  ultimately show ?thesis by simp
qed

text \<open>
  The rounding is visible: at the distance \<open>11650845 / 2^22\<close> (a \<^verbatim>\<open>float\<close>) the exact
  quotient is just below 18 and the rounded one is 18.
\<close>

lemma line_height_examples:
  "line_height (5 / 2) = Inr 20"
  "line_height (11650845 / 4194304) = Inr 18"
  "\<lfloor>real_of_int SCREEN_HEIGHT / (11650845 / 4194304 :: real)\<rfloor> = 17"
  "line_height (1 / 2 ^ 30) = Inl FloatToInt"
  "line_height 0 = Inl FloatToInt"
  by code_simp+

text \<open>
  Where the distance is positive and the rounded quotient fits an \<open>int\<close>, the slice is as
  it should be: \<open>compute_wall_slice\<close> stores for its column the start
  \<open>H/2 - lineHeight/2\<close> raised to 0 when negative and the end \<open>H/2 + lineHeight/2\<close> lowered to
  \<open>H - 1\<close> when larger; both lie in \<open>[0, H - 1]\<close>, the two unclamped values add up to \<open>H\<close>
  and the two stored values to \<open>H - 1\<close> or \<open>H\<close>.
\<close>

lemma compute_wall_slice_centered:
  assumes "0 < perpWallDist ray"
    and "binary32 (real_of_int SCREEN_HEIGHT / perpWallDist ray) < 2147483648"
    and "0 \<le> column" "column < SCREEN_WIDTH"
    and "length (draw_start b) = nat SCREEN_WIDTH" "length (draw_end b) = nat SCREEN_WIDTH"
  shows "\<exists>lineHeight b'.
           line_height (perpWallDist ray) = Inr lineHeight \<and> 0 \<le> lineHeight \<and>
           compute_wall_slice ray column b = Inr b' \<and>
           draw_start b' ! nat column = max 0 (SCREEN_HEIGHT div 2 - lineHeight div 2) \<and>
           draw_end b' ! nat column = min (SCREEN_HEIGHT - 1) (SCREEN_HEIGHT div 2 + lineHeight div 2) \<and>
           0 \<le> draw_start b' ! nat column \<and> draw_start b' ! nat column \<le> SCREEN_HEIGHT - 1 \<and>
           0 \<le> draw_end b' ! nat column \<and> draw_end b' ! nat column \<le> SCREEN_HEIGHT - 1 \<and>
           \<bar>(SCREEN_HEIGHT div 2 - lineHeight div 2) + (SCREEN_HEIGHT div 2 + lineHeight div 2)
              - (SCREEN_HEIGHT - 1)\<bar> \<le> 1 \<and>
           \<bar>draw_start b' ! nat column + draw_end b' ! nat column - (SCREEN_HEIGHT - 1)\<bar> \<le> 1"
proof -
  let ?lh = "\<lfloor>binary32 (real_of_int SCREEN_HEIGHT / perpWallDist ray)\<rfloor>"
  let ?s = "max 0 (SCREEN_HEIGHT div 2 - ?lh div 2)"
  let ?e = "min (SCREEN_HEIGHT - 1) (SCREEN_HEIGHT div 2 + ?lh div 2)"
  let ?b' = "b\<lparr>draw_start := (draw_start b)[nat column := ?s],
               draw_end := (draw_end b)[nat column := ?e],
               wallColor := (wallColor b)[nat column := Some (get_shade (perpWallDist ray))]\<rparr>"
  have lh: "line_height (perpWallDist ray) = Inr ?lh" and lh0: "0 \<le> ?lh"
    using line_height_value[OF assms(1,2)] by blast+
  have ws: "wall_slice (perpWallDist ray) = Inr (?s, ?e, get_shade (perpWallDist ray))"
    using wall_slice_value[OF lh lh0] .
  have cw: "compute_wall_slice ray column b = Inr ?b'"
    unfolding compute_wall_slice_def ws using assms(3,4) by simp
  have n: "nat column < length (draw_start b)" "nat column < length (draw_end b)"
    using assms(3-6) by simp_all
  have ds: "draw_start ?b' ! nat column = ?s" and de: "draw_end ?b' ! nat column = ?e"
    using n by simp_all
  define k where "k = ?lh div 2"
  have k: "0 \<le> k" unfolding k_def using lh0 by simp
  have h: "SCREEN_HEIGHT div 2 = 25" "SCREEN_HEIGHT - 1 = 49" by (simp_all add: SCREEN_HEIGHT_def)
  have "0 \<le> max 0 (25 - k)" "max 0 (25 - k) \<le> 49" "0 \<le> min 49 (25 + k)" "min 49 (25 + k) \<le> 49"
    "\<bar>(25 - k) + (25 + k) - 49\<bar> \<le> 1" "\<bar>max 0 (25 - k) + min 49 (25 + k) - 49\<bar> \<le> 1"
    using k by (auto simp: max_def min_def)
  then have f: "0 \<le> ?s" "?s \<le> SCREEN_HEIGHT - 1" "0 \<le> ?e" "?e \<le> SCREEN_HEIGHT - 1"
    "\<bar>(SCREEN_HEIGHT div 2 - ?lh div 2) + (SCREEN_HEIGHT div 2 + ?lh div 2) - (SCREEN_HEIGHT - 1)\<bar> \<le> 1"
    "\<bar>?s + ?e - (SCREEN_HEIGHT - 1)\<bar> \<le> 1"
    unfolding h k_def by blast+
  show ?thesis
    apply (rule exI[of _ ?lh])
    apply (rule exI[of _ ?b'])
    unfolding ds de
    by (intro conjI refl lh lh0 cw f)
qed

lemma in_open_cell_edge: "in_open_cell map_c p_edge"
  by (simp add: in_open_cell_def p_edge_def float_to_int_def open_cell_def map_c_def)

lemma wall_north_of_p_edge: "wall_ahead map_c 9 12 0 (- 1) (Suc 0)"
proof -
  have "map_at map_c 11 9 = Inr (CHR ''1'')" by (simp add: map_at_def map_c_def)
  then show ?thesis by (simp add: wall_ahead_def)
qed

lemma cast_ray_p_edge:
  "cast_ray (Suc 0) map_c ray0 (SCREEN_WIDTH div 2) p_edge =
     Some (Inr \<lparr>cameraX = 0, rayDirX = 0, rayDirY = - 1, mapX = 9, mapY = 11,
        deltaDistX = 10 ^ 30, deltaDistY = 1, sideDistX = 10 ^ 30 / 2, sideDistY = 1,
        stepX = 1, stepY = - 1, hit = 1, side = 1, perpWallDist = 0\<rparr>)"
proof -
  let ?r1 = "ray0\<lparr>cameraX := 0, rayDirX := 0, rayDirY := - 1, mapX := 9, mapY := 12,
                 deltaDistX := 10 ^ 30, deltaDistY := 1, hit := 0\<rparr>"
  let ?r2 = "?r1\<lparr>stepX := 1, sideDistX := 10 ^ 30 / 2, stepY := - 1, sideDistY := 0\<rparr>"
  have fx: "float_to_int (x p_edge) = Inr 9" and fy: "float_to_int (y p_edge) = Inr 12"
    by (simp_all add: p_edge_def float_to_int_def)
  have i: "init_ray ray0 (SCREEN_WIDTH div 2) p_edge = Inr ?r1"
    unfolding init_ray_value[OF fx fy] centre_column by (simp add: p_edge_def)
  have st: "compute_initial_steps ?r1 p_edge = ?r2"
    by (simp add: compute_initial_steps_def Let_def p_edge_def)
  have wa: "wall_ahead map_c (mapX ?r2) (mapY ?r2) 0 (stepY ?r2) (Suc 0)"
    using wall_north_of_p_edge by simp
  have h0: "hit ?r2 = 0" and d0: "0 \<le> deltaDistY ?r2" by simp_all
  have c: "sideDistY ?r2 + real (Suc 0) * deltaDistY ?r2 \<le> sideDistX ?r2" by simp
  have l: "dda_loop (Suc 0) map_c ?r2 =
     Some (Inr (?r2\<lparr>sideDistY := sideDistY ?r2 + real (Suc 0) * deltaDistY ?r2,
                     mapY := mapY ?r2 + stepY ?r2 * int (Suc 0), side := 1, hit := 1\<rparr>))"
    using dda_loop_along_Y[OF wa h0 d0 c] .
  have "cast_ray (Suc 0) map_c ray0 (SCREEN_WIDTH div 2) p_edge = perform_dda (Suc 0) map_c ?r2"
    unfolding cast_ray_def i sum.case st ..
  also note perform_dda_value[OF l]
  finally show ?thesis by (simp add: ray0_def)
qed

lemma render_column_p_edge:
  "render_column (Suc 0) map_c p_edge (SCREEN_WIDTH div 2) (ray0, buffers0) = Some (Inl FloatToInt)"
proof -
  have "wall_slice 0 = Inl FloatToInt" by (simp add: wall_slice_def line_height_def)
  then show ?thesis
    unfolding render_column_def fst_conv snd_conv cast_ray_p_edge
    by (simp add: compute_wall_slice_def)
qed

text \<open>
  C5. The claim is that a near-zero perpendicular wall distance is clamped to a small
  positive epsilon before \<open>lineHeight\<close> is computed, so that the division never overflows.
  The program does not do it. The player \<open>p_edge\<close> stands in an open cell, on the face of
  the wall north of the start position; the ray of the centre column comes back with the
  distance 0, and the projection of that column divides \<open>SCREEN_HEIGHT\<close> by it and
  converts the quotient, which is not finite: the behaviour is undefined. A small positive
  distance is not clamped either: for \<open>2^-30\<close> the quotient is too large for an \<open>int\<close>.
\<close>

theorem projection_divides_by_zero:
  "in_open_cell map_c p_edge \<and>
   map_option (map_sum id perpWallDist)
     (cast_ray 1 map_c ray0 (SCREEN_WIDTH div 2) p_edge) = Some (Inr 0) \<and>
   render_column 1 map_c p_edge (SCREEN_WIDTH div 2) (ray0, buffers0) = Some (Inl FloatToInt) \<and>
   line_height 0 = Inl FloatToInt \<and>
   line_height (1 / 2 ^ 30) = Inl FloatToInt"
  using in_open_cell_edge render_column_p_edge line_height_examples(4,5)
  unfolding One_nat_def cast_ray_p_edge by simp

text \<open>
  C6. The claim is that for every perpendicular wall distance the stored start and end
  are \<open>H/2 - lineHeight/2\<close> and \<open>H/2 + lineHeight/2\<close> clamped into \<open>[0, H - 1]\<close>, centred. It
  fails for the distance 0, which the program does produce: the player \<open>p_wall\<close> stands
  in an open cell on the face of a wall, the ray of the centre column comes back with the
  distance 0, and for that ray \<open>compute_wall_slice\<close> has no \<open>lineHeight\<close> and stores no
  slice: the conversion of the quotient is undefined.
\<close>

theorem compute_wall_slice_at_zero:
  "in_open_cell map_c p_wall \<and>
   cast_ray 1 map_c ray0 (SCREEN_WIDTH div 2) p_wall =
     Some (Inr \<lparr>cameraX = 0, rayDirX = - 1, rayDirY = 0, mapX = 1, mapY = 3,
        deltaDistX = 1, deltaDistY = 10 ^ 30, sideDistX = 1, sideDistY = 10 ^ 30 / 2,
        stepX = - 1, stepY = 1, hit = 1, side = 0, perpWallDist = 0\<rparr>) \<and>
   wall_slice 0 = Inl FloatToInt \<and>
   compute_wall_slice
     \<lparr>cameraX = 0, rayDirX = - 1, rayDirY = 0, mapX = 1, mapY = 3,
      deltaDistX = 1, deltaDistY = 10 ^ 30, sideDistX = 1, sideDistY = 10 ^ 30 / 2,
      stepX = - 1, stepY = 1, hit = 1, side = 0, perpWallDist = 0\<rparr>
     (SCREEN_WIDTH div 2) buffers0 = Inl FloatToInt"
proof -
  have w: "wall_slice 0 = Inl FloatToInt" by (simp add: wall_slice_def line_height_def)
  then have "compute_wall_slice
     \<lparr>cameraX = 0, rayDirX = - 1, rayDirY = 0, mapX = 1, mapY = 3,
      deltaDistX = 1, deltaDistY = 10 ^ 30, sideDistX = 1, sideDistY = 10 ^ 30 / 2,
      stepX = - 1, stepY = 1, hit = 1, side = 0, perpWallDist = 0\<rparr>
     (SCREEN_WIDTH div 2) buffers0 = Inl FloatToInt"
    by (simp add: compute_wall_slice_def)
  then show ?thesis using in_open_cell_wall cast_ray_p_wall w by simp
qed

subsection \<open>Claims on rotation\<close>

lemma rotate_0: "rotate_view 0 p = p"
  by (simp add: rotate_view_def Let_def)

lemma rotate_rotate: "rotate_view a (rotate_view b p) = rotate_view (b + a) p"
proof (rule t_player.equality)
  show "dirX (rotate_view a (rotate_view b p)) = dirX (rotate_view (b + a) p)"
    "dirY (rotate_view a (rotate_view b p)) = dirY (rotate_view (b + a) p)"
    "planeX (rotate_view a (rotate_view b p)) = planeX (rotate_view (b + a) p)"
    "planeY (rotate_view a (rotate_view b p)) = planeY (rotate_view (b + a) p)"
    by (simp_all add: rotate_fields cos_add sin_add algebra_simps)
  show "x (rotate_view a (rotate_view b p)) = x (rotate_view (b + a) p)"
    "y (rotate_view a (rotate_view b p)) = y (rotate_view (b + a) p)"
    by (simp_all add: rotate_position)
  show "t_player.more (rotate_view a (rotate_view b p)) = t_player.more (rotate_view (b + a) p)"
    by (simp add: rotate_view_def Let_def)
qed

lemma move_keys_rotations:
  "set keys \<subseteq> rotation_keys \<Longrightarrow>
     move_keys g p keys = Inr (rotate_view (rotSpeed * real_of_int (turns keys)) p)"
proof (induction keys arbitrary: p)
  case Nil
  then show ?case by (simp add: rotate_0)
next
  case (Cons key keys)
  then have k: "key \<in> rotation_keys" and ks: "set keys \<subseteq> rotation_keys" by simp_all
  let ?a = "if key = CHR ''e'' then rotSpeed else - rotSpeed"
  have t: "rotSpeed * real_of_int (turns (key # keys)) = ?a + rotSpeed * real_of_int (turns keys)"
    using k by (auto simp: rotation_keys_def algebra_simps)
  have "move_keys g p (key # keys) = move_keys g (rotate_view ?a p) keys"
    using move_player_rotation[OF k, of g p] by simp
  also have "\<dots> = Inr (rotate_view (rotSpeed * real_of_int (turns keys)) (rotate_view ?a p))"
    using Cons.IH[OF ks] .
  also have "\<dots> = Inr (rotate_view (rotSpeed * real_of_int (turns (key # keys))) p)"
    unfolding rotate_rotate t ..
  finally show ?case .
qed

text \<open>
  C8. Every finite sequence of the rotation keys \<open>e\<close> and \<open>q\<close> returns a player whose
  direction vector and plane vector are both the original ones rotated by one and the same
  angle, \<open>rotSpeed\<close> times the number of \<open>e\<close> minus the number of \<open>q\<close>. So a direction and a
  plane that are perpendicular stay perpendicular, the lengths of both vectors are
  preserved, and the position does not change. (In exact arithmetic the dot product stays
  0 and the lengths stay equal; rounding is not modelled.)
\<close>

theorem rotations_preserve_camera:
  assumes "set keys \<subseteq> rotation_keys" and "dirX p * planeX p + dirY p * planeY p = 0"
  shows "\<exists>p'. move_keys g p keys = Inr p' \<and>
           dirX p' = dirX p * cos (rotSpeed * real_of_int (turns keys))
                     - dirY p * sin (rotSpeed * real_of_int (turns keys)) \<and>
           dirY p' = dirX p * sin (rotSpeed * real_of_int (turns keys))
                     + dirY p * cos (rotSpeed * real_of_int (turns keys)) \<and>
           planeX p' = planeX p * cos (rotSpeed * real_of_int (turns keys))
                       - planeY p * sin (rotSpeed * real_of_int (turns keys)) \<and>
           planeY p' = planeX p * sin (rotSpeed * real_of_int (turns keys))
                       + planeY p * cos (rotSpeed * real_of_int (turns keys)) \<and>
           dirX p' * planeX p' + dirY p' * planeY p' = 0 \<and>
           (planeX p')\<^sup>2 + (planeY p')\<^sup>2 = (planeX p)\<^sup>2 + (planeY p)\<^sup>2 \<and>
           (dirX p')\<^sup>2 + (dirY p')\<^sup>2 = (dirX p)\<^sup>2 + (dirY p)\<^sup>2 \<and>
           x p' = x p \<and> y p' = y p"
proof -
  let ?a = "rotSpeed * real_of_int (turns keys)"
  let ?p' = "rotate_view ?a p"
  have mv: "move_keys g p keys = Inr ?p'" using move_keys_rotations[OF assms(1)] .
  have dot: "dirX ?p' * planeX ?p' + dirY ?p' * planeY ?p' = 0"
    unfolding rotate_fields rotation_dot using assms(2) .
  have np: "(planeX ?p')\<^sup>2 + (planeY ?p')\<^sup>2 = (planeX p)\<^sup>2 + (planeY p)\<^sup>2"
    unfolding rotate_fields rotation_norm ..
  have nd: "(dirX ?p')\<^sup>2 + (dirY ?p')\<^sup>2 = (dirX p)\<^sup>2 + (dirY p)\<^sup>2"
    unfolding rotate_fields rotation_norm ..
  have pos: "x ?p' = x p" "y ?p' = y p" using rotate_position by simp_all
  show ?thesis
    apply (rule exI[of _ ?p'])
    by (intro conjI mv rotate_fields dot np nd pos)
qed

theorem rotations_preserve_camera_witness:
  "set ''eeq'' \<subseteq> rotation_keys \<and>
   dirX (spawn_at 9 14) * planeX (spawn_at 9 14) + dirY (spawn_at 9 14) * planeY (spawn_at 9 14) = 0 \<and>
   turns ''eeq'' = 1 \<and>
   move_keys map_c (spawn_at 9 14) ''eeq'' = Inr (rotate_view rotSpeed (spawn_at 9 14)) \<and>
   dirX (rotate_view rotSpeed (spawn_at 9 14)) * planeX (rotate_view rotSpeed (spawn_at 9 14))
     + dirY (rotate_view rotSpeed (spawn_at 9 14)) * planeY (rotate_view rotSpeed (spawn_at 9 14)) = 0 \<and>
   (planeX (rotate_view rotSpeed (spawn_at 9 14)))\<^sup>2 + (planeY (rotate_view rotSpeed (spawn_at 9 14)))\<^sup>2
     = (66 / 100)\<^sup>2"
proof -
  have k: "set ''eeq'' \<subseteq> rotation_keys" by (simp add: rotation_keys_def)
  have d: "dirX (spawn_at 9 14) * planeX (spawn_at 9 14)
           + dirY (spawn_at 9 14) * planeY (spawn_at 9 14) = 0"
    by (simp add: spawn_at_fields)
  have t: "turns ''eeq'' = 1" by simp
  have m: "move_keys map_c (spawn_at 9 14) ''eeq'' = Inr (rotate_view rotSpeed (spawn_at 9 14))"
    using move_keys_rotations[OF k, of map_c "spawn_at 9 14"] unfolding t by simp
  from rotations_preserve_camera[OF k d, of map_c] obtain p' where
    p': "move_keys map_c (spawn_at 9 14) ''eeq'' = Inr p'"
      "dirX p' * planeX p' + dirY p' * planeY p' = 0"
      "(planeX p')\<^sup>2 + (planeY p')\<^sup>2 = (planeX (spawn_at 9 14))\<^sup>2 + (planeY (spawn_at 9 14))\<^sup>2"
    by blast
  have e: "p' = rotate_view rotSpeed (spawn_at 9 14)" using p'(1) m by simp
  have "(planeX (spawn_at 9 14))\<^sup>2 + (planeY (spawn_at 9 14))\<^sup>2 = (66 / 100)\<^sup>2"
    by (simp add: spawn_at_fields)
  then show ?thesis using k d t m p'(2,3) unfolding e by simp
qed

subsection \<open>Claims on start-up\<close>

lemma main_spawn_map_c: "main_spawn map_c = Inr (Some (spawn_at 9 14))"
  by code_simp

lemma main_spawn_no_spawn: "main_spawn map_no_spawn = Inr None"
  by code_simp

lemma main_spawn_two_spawns: "main_spawn map_two_spawns = Inr (Some (spawn_at 9 14))"
  by code_simp

lemma spawn_cells_map_c: "spawn_cells map_c = [(9, 14)]"
  by code_simp

lemma spawn_cells_no_spawn: "spawn_cells map_no_spawn = []"
  by code_simp

lemma spawn_cells_two_spawns: "spawn_cells map_two_spawns = [(2, 1), (9, 14)]"
  by code_simp

lemma fold_pick_last:
  "fold (\<lambda>c pl. if P c then Some (f c) else pl) cs pl =
     (if filter P cs = [] then pl else Some (f (last (filter P cs))))"
  by (induction cs arbitrary: pl) simp_all

lemma map_at_inside:
  "0 \<le> cy \<Longrightarrow> cy < int (length g) \<Longrightarrow> 0 \<le> cx \<Longrightarrow> cx < int (length (g ! nat cy)) \<Longrightarrow>
     map_at g cy cx = Inr (g ! nat cy ! nat cx)"
  by (simp add: map_at_def Let_def)

lemma upt_int_step:
  assumes "0 \<le> c" "c < w"
  shows "map int [nat c..<nat w] = c # map int [nat (c + 1)..<nat w]"
proof -
  have "nat c < nat w" using assms by simp
  then have "[nat c..<nat w] = nat c # [Suc (nat c)..<nat w]" by (rule upt_conv_Cons)
  moreover have "Suc (nat c) = nat (c + 1)" using assms(1) by simp
  moreover have "int (nat c) = c" using assms(1) by simp
  ultimately show ?thesis by simp
qed

lemma upt_int_empty:
  assumes "\<not> c < w" "0 \<le> c"
  shows "map int [nat c..<nat w] = []"
  using assms by simp

lemma scan_cols_fold:
  assumes row: "0 \<le> cy" "cy < int (length g)" "nat MAP_WIDTH \<le> length (g ! nat cy)"
  shows "k = nat (MAP_WIDTH - cx) \<Longrightarrow> 0 \<le> cx \<Longrightarrow>
     scan_cols g cy cx pl =
       Inr (fold (\<lambda>c pl. if map_at g (snd c) (fst c) = Inr (CHR ''P'')
                           then Some (spawn_at (fst c) (snd c)) else pl)
              (map (\<lambda>i. (i, cy)) (map int [nat cx..<nat MAP_WIDTH])) pl)"
proof (induction k arbitrary: cx pl)
  case 0
  then have ge: "\<not> cx < MAP_WIDTH" by simp
  have "scan_cols g cy cx pl = Inr pl" by (subst scan_cols.simps) (simp add: ge)
  then show ?case unfolding upt_int_empty[OF ge 0(2)] by simp
next
  case (Suc k)
  then have lt: "cx < MAP_WIDTH" and k: "k = nat (MAP_WIDTH - (cx + 1))" and nn: "0 \<le> cx + 1"
    by simp_all
  have "cx < int (length (g ! nat cy))" using lt Suc.prems(2) row(3) by linarith
  then have rd: "map_at g cy cx = Inr (g ! nat cy ! nat cx)"
    by (rule map_at_inside[OF row(1,2) Suc.prems(2)])
  let ?f = "\<lambda>c pl. if map_at g (snd c) (fst c) = Inr (CHR ''P'')
                           then Some (spawn_at (fst c) (snd c)) else pl"
  have fc: "?f (cx, cy) pl = (if g ! nat cy ! nat cx = CHR ''P'' then Some (spawn_at cx cy) else pl)"
    by (simp add: rd)
  have "scan_cols g cy cx pl =
      scan_cols g cy (cx + 1) (if g ! nat cy ! nat cx = CHR ''P'' then Some (spawn_at cx cy) else pl)"
    by (subst scan_cols.simps) (simp add: lt rd)
  also have "\<dots> = Inr (fold ?f (map (\<lambda>i. (i, cy)) (map int [nat (cx + 1)..<nat MAP_WIDTH]))
                       (?f (cx, cy) pl))"
    unfolding fc by (rule Suc.IH[OF k nn])
  also have "\<dots> = Inr (fold ?f (map (\<lambda>i. (i, cy)) (map int [nat cx..<nat MAP_WIDTH])) pl)"
    unfolding upt_int_step[OF Suc.prems(2) lt] by (simp only: list.map fold_simps)
  finally show ?case .
qed

lemma scan_rows_fold:
  assumes rows: "nat MAP_HEIGHT \<le> length g"
    "\<forall>row \<in> set g. nat MAP_WIDTH \<le> length row"
  shows "k = nat (MAP_HEIGHT - cy) \<Longrightarrow> 0 \<le> cy \<Longrightarrow>
     scan_rows g cy pl =
       Inr (fold (\<lambda>c pl. if map_at g (snd c) (fst c) = Inr (CHR ''P'')
                           then Some (spawn_at (fst c) (snd c)) else pl)
              (concat (map (\<lambda>cy. map (\<lambda>cx. (cx, cy)) (map int [0..<nat MAP_WIDTH]))
                           (map int [nat cy..<nat MAP_HEIGHT]))) pl)"
proof (induction k arbitrary: cy pl)
  case 0
  then have ge: "\<not> cy < MAP_HEIGHT" by simp
  have "scan_rows g cy pl = Inr pl" by (subst scan_rows.simps) (simp add: ge)
  then show ?case unfolding upt_int_empty[OF ge 0(2)] by simp
next
  case (Suc k)
  then have lt: "cy < MAP_HEIGHT" and k: "k = nat (MAP_HEIGHT - (cy + 1))" and nn: "0 \<le> cy + 1"
    by simp_all
  have cyb: "cy < int (length g)" using lt Suc.prems(2) rows(1) by linarith
  then have "g ! nat cy \<in> set g" using Suc.prems(2) by simp
  then have w: "nat MAP_WIDTH \<le> length (g ! nat cy)" using rows(2) by blast
  let ?f = "\<lambda>c pl. if map_at g (snd c) (fst c) = Inr (CHR ''P'')
                           then Some (spawn_at (fst c) (snd c)) else pl"
  let ?row = "\<lambda>cy. map (\<lambda>cx. (cx, cy)) (map int [0..<nat MAP_WIDTH])"
  have z: "(0::int) \<le> 0" by simp
  have c: "scan_cols g cy 0 pl = Inr (fold ?f (?row cy) pl)"
    using scan_cols_fold[OF Suc.prems(2) cyb w refl z, of pl] by (simp only: nat_0)
  have "scan_rows g cy pl = scan_rows g (cy + 1) (fold ?f (?row cy) pl)"
    by (subst scan_rows.simps) (simp only: lt c if_True sum.case)
  also have "\<dots> = Inr (fold ?f (concat (map ?row (map int [nat (cy + 1)..<nat MAP_HEIGHT])))
                       (fold ?f (?row cy) pl))"
    by (rule Suc.IH[OF k nn])
  also have "\<dots> = Inr (fold ?f (concat (map ?row (map int [nat cy..<nat MAP_HEIGHT]))) pl)"
    unfolding upt_int_step[OF Suc.prems(2) lt] by (simp only: list.map concat.simps fold_append comp_apply)
  finally show ?case .
qed

lemma main_spawn_last:
  assumes "nat MAP_HEIGHT \<le> length g" "\<forall>row \<in> set g. nat MAP_WIDTH \<le> length row"
  shows "main_spawn g =
     Inr (if spawn_cells g = [] then None
          else Some (spawn_at (fst (last (spawn_cells g))) (snd (last (spawn_cells g)))))"
proof -
  have "main_spawn g =
     Inr (fold (\<lambda>c pl. if map_at g (snd c) (fst c) = Inr (CHR ''P'')
                           then Some (spawn_at (fst c) (snd c)) else pl)
            scanned_cells None)"
    unfolding main_spawn_def scanned_cells_def
    using scan_rows_fold[OF assms refl, of 0 None] by (simp only: nat_0 order_refl)
  then show ?thesis
    unfolding fold_pick_last spawn_cells_def .
qed


lemma scannable_maps: "scannable map_c" "scannable map_no_spawn" "scannable map_two_spawns"
  by (simp_all add: scannable_def map_no_spawn_def map_two_spawns_def map_c_def MAP_HEIGHT_def MAP_WIDTH_def)

text \<open>
  C9, as amended. The start-up scan raises no failure. On a grid with the rows and columns
  the scan reads, it sets the player at every cell marked \<open>P\<close> it meets, in row-major order:
  with no marker the player is left unset, with one marker the player starts at the centre
  of that cell (facing north, plane 0.66), and with several markers the last one in
  row-major order is the start.
\<close>

theorem main_spawn_last_marker:
  assumes "scannable g"
  shows "main_spawn g =
           Inr (if spawn_cells g = [] then None
                else Some (spawn_at (fst (last (spawn_cells g))) (snd (last (spawn_cells g))))) \<and>
         (spawn_cells g = [(cx, cy)] \<longrightarrow>
            main_spawn g = Inr (Some (spawn_at cx cy)) \<and>
            x (spawn_at cx cy) = real_of_int cx + 1 / 2 \<and>
            y (spawn_at cx cy) = real_of_int cy + 1 / 2)"
proof -
  have a: "nat MAP_HEIGHT \<le> length g" "\<forall>row \<in> set g. nat MAP_WIDTH \<le> length row"
    using assms unfolding scannable_def by blast+
  have m: "main_spawn g =
           Inr (if spawn_cells g = [] then None
                else Some (spawn_at (fst (last (spawn_cells g))) (snd (last (spawn_cells g)))))"
    using main_spawn_last[OF a] .
  have "main_spawn g = Inr (Some (spawn_at cx cy))" if "spawn_cells g = [(cx, cy)]"
    unfolding m that by simp
  then show ?thesis using m spawn_at_fields(1,2) by blast
qed

theorem main_spawn_last_marker_witness:
  "scannable map_c \<and> spawn_cells map_c = [(9, 14)] \<and>
   main_spawn map_c = Inr (Some (spawn_at 9 14)) \<and>
   x (spawn_at 9 14) = 19 / 2 \<and> y (spawn_at 9 14) = 29 / 2"
proof -
  have "main_spawn map_c = Inr (Some (spawn_at 9 14)) \<and>
        x (spawn_at 9 14) = real_of_int 9 + 1 / 2 \<and> y (spawn_at 9 14) = real_of_int 14 + 1 / 2"
    using main_spawn_last_marker[OF scannable_maps(1), of 9 14] spawn_cells_map_c by blast
  then show ?thesis using scannable_maps(1) spawn_cells_map_c by simp
qed

text \<open>
  C9 as stated fails: on the program's map without its marker the scan ends with the
  player unset and no failure, and with a second marker in cell (2, 1) it ends, again
  without a failure, with the start at the later marker (9, 14).
\<close>

theorem main_spawn_last_marker_counterexample:
  "scannable map_no_spawn \<and> spawn_cells map_no_spawn = [] \<and>
   main_spawn map_no_spawn = Inr None \<and>
   scannable map_two_spawns \<and> spawn_cells map_two_spawns = [(2, 1), (9, 14)] \<and>
   main_spawn map_two_spawns = Inr (Some (spawn_at 9 14))"
  using scannable_maps(2,3) spawn_cells_no_spawn spawn_cells_two_spawns
    main_spawn_no_spawn main_spawn_two_spawns
  by simp

end
